theory Spec2Isabelle
  imports Main
begin

section \<open>The task scheduler of src/queue.js\<close>

text \<open>
  The class \<^verbatim>\<open>QueueManager\<close> runs on one thread of control: a method or a callback runs
  to its end (or to its \<^verbatim>\<open>await\<close>) before anything else does. The model is therefore a
  state and one function for each method and each callback of the event loop (the
  continuation after \<^verbatim>\<open>await item.task()\<close>, the callbacks given to \<^verbatim>\<open>setTimeout\<close>).
  An execution is a list of events; the order of the list is the order in which the
  event loop runs them, so "the timer fires before the operation settles" is the order
  of two events. Durations are not modelled. The operation of a task is opaque: while
  it is being started it does not call the scheduler, and all the model knows of what it
  returns is how it settles.
\<close>

subsection \<open>Values\<close>

text \<open>\<^verbatim>\<open>new Error(message)\<close>; the result of a task is opaque to the scheduler.\<close>

datatype error = Error string

datatype jsval = Undefined | Opaque nat

datatype promise = Pending | Resolved jsval | Rejected error

text \<open>A timer made by \<^verbatim>\<open>setTimeout\<close>: not made yet, waiting, disarmed by
  \<^verbatim>\<open>clearTimeout\<close>, or run.\<close>

datatype timer = Unset | Armed | Cleared | Fired

text \<open>
  What the call \<^verbatim>\<open>item.task()\<close> does: it throws at once (the \<^verbatim>\<open>catch\<close> block then runs
  in the same turn), or it returns a promise or a value that \<^verbatim>\<open>await\<close> suspends on; how
  that settles is an event of its own.
\<close>

datatype task = Throws error | Awaits

text \<open>
  The queue item of \<^verbatim>\<open>addTask\<close>. \<open>ident\<close> stands for the pair \<^verbatim>\<open>resolve\<close>, \<^verbatim>\<open>reject\<close>: it
  names the promise that \<^verbatim>\<open>addTask\<close> returned, and the timer of the item once admitted.
\<close>

record item =
  task :: task
  ident :: nat
  item_timeout :: int
  priority :: int
  startTime :: int

record stats =
  total' :: int
  completed :: int
  failed :: int
  pending :: int

record options =
  opt_timeout :: "int option"
  opt_priority :: "int option"

record config =
  cfg_concurrency :: "int option"
  cfg_timeout :: "int option"

text \<open>
  One call of \<^verbatim>\<open>onIdle\<close>: its promise and whether a \<^verbatim>\<open>setTimeout(checkIdle, 100)\<close> is
  outstanding. For a call through \<^verbatim>\<open>onIdleWithTimeout\<close> also the timer of the rejecting
  promise (\<open>Unset\<close> for a plain \<^verbatim>\<open>onIdle\<close>) and the promise of \<^verbatim>\<open>Promise.race\<close>, which
  takes the outcome of whichever of the two settles first.
\<close>

record idle_wait =
  idle_promise :: promise
  poll_armed :: bool
  deadline :: timer
  deadline_ms :: int
  race :: promise

text \<open>The fields of \<^verbatim>\<open>this\<close>.\<close>

record QueueManager =
  concurrency :: int
  timeout :: int
  queue :: "item list"
  running :: int
  stats :: stats

text \<open>
  The object together with what the runtime holds for it: the promises returned by
  \<^verbatim>\<open>addTask\<close>, the timeout timers, the invocations of \<^verbatim>\<open>processQueue\<close> suspended at their
  \<^verbatim>\<open>await\<close> (all three by \<open>ident\<close>), and the calls of \<^verbatim>\<open>onIdle\<close>.
\<close>

record world = QueueManager +
  promises :: "nat \<Rightarrow> promise"
  timers :: "nat \<Rightarrow> timer"
  awaiting :: "nat \<Rightarrow> bool"
  nextId :: nat
  idles :: "nat \<Rightarrow> idle_wait"
  nextIdle :: nat

text \<open>\<^verbatim>\<open>a || d\<close> on a number that may be \<^verbatim>\<open>undefined\<close>: 0 is falsy as well.\<close>

definition or_else :: "int option \<Rightarrow> int \<Rightarrow> int" where
  "or_else a d = (case a of None \<Rightarrow> d | Some v \<Rightarrow> if v = 0 then d else v)"

definition constructor :: "config \<Rightarrow> world" where
  "constructor cfg =
     \<lparr>concurrency = or_else (cfg_concurrency cfg) 5,
      timeout = or_else (cfg_timeout cfg) 30000,
      queue = [],
      running = 0,
      stats = \<lparr>total' = 0, completed = 0, failed = 0, pending = 0\<rparr>,
      promises = (\<lambda>_. Pending),
      timers = (\<lambda>_. Unset),
      awaiting = (\<lambda>_. False),
      nextId = 0,
      idles = (\<lambda>_. \<lparr>idle_promise = Pending, poll_armed = False, deadline = Unset,
                      deadline_ms = 0, race = Pending\<rparr>),
      nextIdle = 0\<rparr>"

subsection \<open>Promises and timers\<close>

text \<open>Settling a promise that is settled already does nothing.\<close>

definition resolve :: "nat \<Rightarrow> jsval \<Rightarrow> world \<Rightarrow> world" where
  "resolve i v w =
     (if promises w i = Pending then w\<lparr>promises := (promises w)(i := Resolved v)\<rparr> else w)"

definition reject :: "nat \<Rightarrow> error \<Rightarrow> world \<Rightarrow> world" where
  "reject i e w =
     (if promises w i = Pending then w\<lparr>promises := (promises w)(i := Rejected e)\<rparr> else w)"

definition clearTimeout :: "nat \<Rightarrow> world \<Rightarrow> world" where
  "clearTimeout i w =
     (if timers w i = Armed then w\<lparr>timers := (timers w)(i := Cleared)\<rparr> else w)"

subsection \<open>processQueue\<close>

text \<open>
  Up to its \<^verbatim>\<open>await\<close>. The guard, \<^verbatim>\<open>shift\<close>, the two counters, the timer, the call of the
  task. A task that throws at once goes through the \<^verbatim>\<open>catch\<close> block, which calls
  \<^verbatim>\<open>processQueue\<close> again; its timer stays armed, since \<^verbatim>\<open>clearTimeout\<close> is on the success
  path only. \<^verbatim>\<open>if (!item) return\<close> is the empty-list case; it is not reached behind the
  guard.
\<close>

function processQueue :: "world \<Rightarrow> world" where
  "processQueue w =
     (if concurrency w \<le> running w \<or> length (queue w) = 0 then w
      else
        (case queue w of
           [] \<Rightarrow> w
         | it # rest \<Rightarrow>
             (let w1 = w\<lparr>queue := rest,
                         running := running w + 1,
                         stats := (stats w)\<lparr>pending := pending (stats w) - 1\<rparr>,
                         timers := (timers w)(ident it := Armed)\<rparr>
              in (case task it of
                    Awaits \<Rightarrow> w1\<lparr>awaiting := (awaiting w1)(ident it := True)\<rparr>
                  | Throws e \<Rightarrow>
                      processQueue
                        (reject (ident it) e
                           (w1\<lparr>stats := (stats w1)\<lparr>failed := failed (stats w1) + 1\<rparr>,
                               running := running w1 - 1\<rparr>))))))"
  by pat_completeness auto
termination
  by (relation "measure (\<lambda>w. length (queue w))") (auto simp: reject_def)

subsection \<open>addTask\<close>

text \<open>
  \<^verbatim>\<open>Array.prototype.sort\<close> is stable; with the comparator \<^verbatim>\<open>b.priority - a.priority\<close> it is
  the stable sort on the negated priority. The third argument is \<^verbatim>\<open>Date.now()\<close>. The
  result is the promise handed to the caller and the new state.
\<close>

definition addTask :: "task \<Rightarrow> options \<Rightarrow> int \<Rightarrow> world \<Rightarrow> nat \<times> world" where
  "addTask t opts now w =
     (let w1 = w\<lparr>stats := (stats w)\<lparr>total' := total' (stats w) + 1,
                                   pending := pending (stats w) + 1\<rparr>\<rparr>;
          i = nextId w1;
          w2 = w1\<lparr>promises := (promises w1)(i := Pending), nextId := i + 1\<rparr>;
          queueItem = \<lparr>task = t, ident = i,
                       item_timeout = or_else (opt_timeout opts) (timeout w2),
                       priority = or_else (opt_priority opts) 0,
                       startTime = now\<rparr>;
          w3 = w2\<lparr>queue := queue w2 @ [queueItem]\<rparr>;
          w4 = w3\<lparr>queue := sort_key (\<lambda>a. - priority a) (queue w3)\<rparr>
      in (i, processQueue w4))"

subsection \<open>The callbacks of processQueue\<close>

text \<open>The code after \<^verbatim>\<open>await item.task()\<close>: the rest of the \<^verbatim>\<open>try\<close> block when the
  operation fulfilled, the \<^verbatim>\<open>catch\<close> block when it rejected.\<close>

definition settle :: "nat \<Rightarrow> error + jsval \<Rightarrow> world \<Rightarrow> world" where
  "settle i r w =
     (let w0 = w\<lparr>awaiting := (awaiting w)(i := False)\<rparr>
      in (case r of
            Inr result \<Rightarrow>
              (let w1 = clearTimeout i w0;
                   w2 = w1\<lparr>stats := (stats w1)\<lparr>completed := completed (stats w1) + 1\<rparr>,
                           running := running w1 - 1\<rparr>
               in processQueue (resolve i result w2))
          | Inl e \<Rightarrow>
              (let w1 = w0\<lparr>stats := (stats w0)\<lparr>failed := failed (stats w0) + 1\<rparr>,
                           running := running w0 - 1\<rparr>
               in processQueue (reject i e w1))))"

text \<open>The callback given to \<^verbatim>\<open>setTimeout\<close> in \<^verbatim>\<open>processQueue\<close>.\<close>

definition timerFired :: "nat \<Rightarrow> world \<Rightarrow> world" where
  "timerFired i w =
     (let w0 = w\<lparr>timers := (timers w)(i := Fired)\<rparr>;
          w1 = w0\<lparr>stats := (stats w0)\<lparr>failed := failed (stats w0) + 1\<rparr>,
                  running := running w0 - 1\<rparr>
      in processQueue (reject i (Error ''Task timeout'') w1))"

subsection \<open>getStats, clear, resetStats, getHealth\<close>

text \<open>The object \<^verbatim>\<open>{...this.stats, concurrency, size, pending, isPaused}\<close>: the four
  fields of \<^verbatim>\<open>this.stats\<close>, of which \<^verbatim>\<open>pending\<close> is then overwritten, and three more.\<close>

record snapshot = stats +
  concurrency' :: int
  size' :: int
  isPaused :: bool

definition getStats :: "world \<Rightarrow> snapshot" where
  "getStats w =
     \<lparr>total' = total' (stats w),
      completed = completed (stats w),
      failed = failed (stats w),
      pending = running w,
      concurrency' = concurrency w,
      size' = int (length (queue w)),
      isPaused = False\<rparr>"

definition clear :: "world \<Rightarrow> world" where
  "clear w =
     (let w1 = fold (\<lambda>it. reject (ident it) (Error ''Queue cleared'')) (queue w) w;
          w2 = w1\<lparr>queue := []\<rparr>
      in w2\<lparr>stats := (stats w2)\<lparr>pending := 0\<rparr>\<rparr>)"

definition resetStats :: "world \<Rightarrow> world" where
  "resetStats w = w\<lparr>stats := \<lparr>total' = 0, completed = 0, failed = 0, pending = 0\<rparr>\<rparr>"

text \<open>\<^verbatim>\<open>stats.failed > stats.completed * 0.1\<close> is compared in tenths: the counters are
  whole numbers and \<open>completed\<close> is never negative.\<close>

definition getRecommendations :: "world \<Rightarrow> snapshot \<Rightarrow> string list" where
  "getRecommendations w st =
     (if completed st < failed st * 10
      then [''High failure rate detected. Consider investigating error causes.''] else [])
     @ (if concurrency w * 3 < pending st
        then [''Queue backlog is high. Consider increasing concurrency or optimizing tasks.'']
        else [])
     @ (if 0 < completed st \<and> failed st = 0
        then [''Queue is performing well with no failures.''] else [])"

record health =
  isHealthy :: bool
  h_stats :: snapshot
  recommendations :: "string list"

definition getHealth :: "world \<Rightarrow> health" where
  "getHealth w =
     (let st = getStats w;
          healthy = (pending st < concurrency w * 2)
      in \<lparr>isHealthy = healthy, h_stats = st, recommendations = getRecommendations w st\<rparr>)"

subsection \<open>onIdle and onIdleWithTimeout\<close>

text \<open>Resolving the promise of \<^verbatim>\<open>onIdle\<close> call \<open>k\<close> settles the race that follows it, if
  there is one and it is still open.\<close>

definition resolveIdle :: "nat \<Rightarrow> world \<Rightarrow> world" where
  "resolveIdle k w =
     (let c = idles w k;
          c1 = (if idle_promise c = Pending then c\<lparr>idle_promise := Resolved Undefined\<rparr> else c);
          c2 = (if deadline c1 \<noteq> Unset \<and> race c1 = Pending
                then c1\<lparr>race := idle_promise c1\<rparr> else c1)
      in w\<lparr>idles := (idles w)(k := c2)\<rparr>)"

definition checkIdle :: "nat \<Rightarrow> world \<Rightarrow> world" where
  "checkIdle k w =
     (if running w = 0 \<and> length (queue w) = 0 then resolveIdle k w
      else w\<lparr>idles := (idles w)(k := (idles w k)\<lparr>poll_armed := True\<rparr>)\<rparr>)"

definition onIdle :: "world \<Rightarrow> nat \<times> world" where
  "onIdle w =
     (let k = nextIdle w;
          w1 = w\<lparr>idles := (idles w)(k := \<lparr>idle_promise = Pending, poll_armed = False,
                                           deadline = Unset, deadline_ms = 0, race = Pending\<rparr>),
                 nextIdle := k + 1\<rparr>
      in (k, checkIdle k w1))"

text \<open>\<^verbatim>\<open>this.onIdle()\<close> runs first, its first check included; then the rejecting promise
  arms its timer; then the race takes up whatever has settled by now. The parameter
  defaults to 10000.\<close>

definition onIdleWithTimeout :: "int option \<Rightarrow> world \<Rightarrow> nat \<times> world" where
  "onIdleWithTimeout ms w =
     (let (k, w1) = onIdle w;
          c = idles w1 k;
          c1 = c\<lparr>deadline := Armed,
                 deadline_ms := (case ms of None \<Rightarrow> 10000 | Some t \<Rightarrow> t)\<rparr>;
          c2 = c1\<lparr>race := idle_promise c1\<rparr>
      in (k, w1\<lparr>idles := (idles w1)(k := c2)\<rparr>))"

text \<open>The callback \<^verbatim>\<open>checkIdle\<close> run by its timer, and the callback that rejects.\<close>

definition pollFired :: "nat \<Rightarrow> world \<Rightarrow> world" where
  "pollFired k w = checkIdle k (w\<lparr>idles := (idles w)(k := (idles w k)\<lparr>poll_armed := False\<rparr>)\<rparr>)"

definition deadlineFired :: "nat \<Rightarrow> world \<Rightarrow> world" where
  "deadlineFired k w =
     (let c = (idles w k)\<lparr>deadline := Fired\<rparr>;
          c1 = (if race c = Pending then c\<lparr>race := Rejected (Error ''Queue idle timeout'')\<rparr>
                else c)
      in w\<lparr>idles := (idles w)(k := c1)\<rparr>)"

subsection \<open>Executions\<close>

text \<open>
  A call of a method can happen in any state. A callback runs only when the runtime holds
  it: the continuation of an invocation that is suspended, a timer that is armed.
  \<open>None\<close> is an event that cannot happen in that state.
\<close>

datatype event =
    AddTask task options int
  | Settle nat "error + jsval"
  | TimerFire nat
  | ClearQueue
  | ResetStats
  | OnIdle
  | OnIdleWithTimeout "int option"
  | PollFire nat
  | DeadlineFire nat

fun fire :: "event \<Rightarrow> world \<Rightarrow> world option" where
  "fire (AddTask t opts now) w = Some (snd (addTask t opts now w))"
| "fire (Settle i r) w = (if awaiting w i then Some (settle i r w) else None)"
| "fire (TimerFire i) w = (if timers w i = Armed then Some (timerFired i w) else None)"
| "fire ClearQueue w = Some (clear w)"
| "fire ResetStats w = Some (resetStats w)"
| "fire OnIdle w = Some (snd (onIdle w))"
| "fire (OnIdleWithTimeout ms) w = Some (snd (onIdleWithTimeout ms w))"
| "fire (PollFire k) w = (if poll_armed (idles w k) then Some (pollFired k w) else None)"
| "fire (DeadlineFire k) w =
     (if deadline (idles w k) = Armed then Some (deadlineFired k w) else None)"

fun exec :: "event list \<Rightarrow> world \<Rightarrow> world option" where
  "exec [] w = Some w"
| "exec (e # es) w = (case fire e w of None \<Rightarrow> None | Some w' \<Rightarrow> exec es w')"

subsection \<open>Vocabulary of the proofs\<close>

text \<open>
  The pieces of the functions above, named so that lemmas can speak of the state between
  two calls. Of \<open>processQueue\<close>: the admission up to the call of the task, the \<^verbatim>\<open>catch\<close>
  block after a task that threw at once, the suspension at \<^verbatim>\<open>await\<close>.
\<close>

definition admit :: "item \<Rightarrow> item list \<Rightarrow> world \<Rightarrow> world" where
  "admit it rest w =
     w\<lparr>queue := rest, running := running w + 1,
       stats := (stats w)\<lparr>pending := pending (stats w) - 1\<rparr>,
       timers := (timers w)(ident it := Armed)\<rparr>"

definition thrown :: "item \<Rightarrow> error \<Rightarrow> world \<Rightarrow> world" where
  "thrown it e w =
     reject (ident it) e
       (w\<lparr>stats := (stats w)\<lparr>failed := failed (stats w) + 1\<rparr>, running := running w - 1\<rparr>)"

definition suspended :: "item \<Rightarrow> world \<Rightarrow> world" where
  "suspended it w = w\<lparr>awaiting := (awaiting w)(ident it := True)\<rparr>"

text \<open>What \<^verbatim>\<open>addTask\<close>, the two continuations after \<^verbatim>\<open>await\<close> and the timer callback do
  before they call \<open>processQueue\<close>.\<close>

definition new_item :: "task \<Rightarrow> options \<Rightarrow> int \<Rightarrow> world \<Rightarrow> item" where
  "new_item t opts now w =
     \<lparr>task = t, ident = nextId w, item_timeout = or_else (opt_timeout opts) (timeout w),
      priority = or_else (opt_priority opts) 0, startTime = now\<rparr>"

definition enqueue :: "task \<Rightarrow> options \<Rightarrow> int \<Rightarrow> world \<Rightarrow> world" where
  "enqueue t opts now w =
     w\<lparr>stats := (stats w)\<lparr>total' := total' (stats w) + 1, pending := pending (stats w) + 1\<rparr>,
       promises := (promises w)(nextId w := Pending),
       nextId := nextId w + 1,
       queue := sort_key (\<lambda>a. - priority a) (queue w @ [new_item t opts now w])\<rparr>"

definition fulfilled :: "nat \<Rightarrow> jsval \<Rightarrow> world \<Rightarrow> world" where
  "fulfilled i v w =
     resolve i v
       ((clearTimeout i (w\<lparr>awaiting := (awaiting w)(i := False)\<rparr>))
          \<lparr>stats := (stats w)\<lparr>completed := completed (stats w) + 1\<rparr>,
           running := running w - 1\<rparr>)"

definition failing :: "nat \<Rightarrow> error \<Rightarrow> world \<Rightarrow> world" where
  "failing i e w =
     reject i e
       (w\<lparr>awaiting := (awaiting w)(i := False),
          stats := (stats w)\<lparr>failed := failed (stats w) + 1\<rparr>,
          running := running w - 1\<rparr>)"

definition expired :: "nat \<Rightarrow> world \<Rightarrow> world" where
  "expired i w =
     reject i (Error ''Task timeout'')
       (w\<lparr>timers := (timers w)(i := Fired),
          stats := (stats w)\<lparr>failed := failed (stats w) + 1\<rparr>,
          running := running w - 1\<rparr>)"

text \<open>Two states that differ at most in what \<^verbatim>\<open>onIdle\<close> keeps.\<close>

definition same_tasks :: "world \<Rightarrow> world \<Rightarrow> bool" where
  "same_tasks w w' \<longleftrightarrow>
     concurrency w' = concurrency w \<and> timeout w' = timeout w \<and> queue w' = queue w
     \<and> running w' = running w \<and> stats w' = stats w \<and> promises w' = promises w
     \<and> timers w' = timers w \<and> awaiting w' = awaiting w \<and> nextId w' = nextId w"


definition backlog_ok :: "world \<Rightarrow> bool" where
  "backlog_ok w \<longleftrightarrow> pending (stats w) = int (length (queue w))"

text \<open>
  The order in which tasks are served: higher priority first, and among equal priorities
  the earlier submission. The invariant of the reachable states: queued tasks are
  distinct, in that order, numbered below the next number to be given, with a pending
  promise, no timer and no suspended invocation; numbers not given yet have neither;
  and an invocation that is suspended with its timer armed has a pending promise.
\<close>

definition before :: "item \<Rightarrow> item \<Rightarrow> bool" where
  "before a b \<longleftrightarrow> priority b < priority a \<or> (priority a = priority b \<and> ident a < ident b)"

definition consistent :: "world \<Rightarrow> bool" where
  "consistent w \<longleftrightarrow>
     distinct (map ident (queue w)) \<and> sorted_wrt before (queue w)
     \<and> (\<forall>it \<in> set (queue w). ident it < nextId w \<and> promises w (ident it) = Pending
            \<and> timers w (ident it) = Unset \<and> \<not> awaiting w (ident it))
     \<and> (\<forall>i. nextId w \<le> i \<longrightarrow> timers w i = Unset \<and> \<not> awaiting w i)
     \<and> (\<forall>i. awaiting w i \<longrightarrow> timers w i = Armed \<longrightarrow> promises w i = Pending)"

text \<open>Two tasks \<open>a\<close> and \<open>b\<close>, each of them queued or admitted earlier, where \<open>b\<close> is still
  queued if \<open>a\<close> is.\<close>

definition ordered_pair :: "item \<Rightarrow> item \<Rightarrow> world \<Rightarrow> bool" where
  "ordered_pair a b v \<longleftrightarrow>
     consistent v \<and> ident a < nextId v \<and> ident b < nextId v
     \<and> (a \<in> set (queue v) \<or> timers v (ident a) \<noteq> Unset)
     \<and> (b \<in> set (queue v) \<or> timers v (ident b) \<noteq> Unset)
     \<and> (a \<in> set (queue v) \<longrightarrow> b \<in> set (queue v))"

text \<open>
  The test of \<^verbatim>\<open>checkIdle\<close>. An execution in which the scheduler is not idle at the start
  of any of its events. A call of \<^verbatim>\<open>onIdleWithTimeout\<close> whose race is open and whose timer
  is armed.
\<close>

definition isIdle :: "world \<Rightarrow> bool" where
  "isIdle w \<longleftrightarrow> running w = 0 \<and> length (queue w) = 0"

fun exec_busy :: "event list \<Rightarrow> world \<Rightarrow> world option" where
  "exec_busy [] w = Some w"
| "exec_busy (e # es) w =
     (if isIdle w then None
      else (case fire e w of None \<Rightarrow> None | Some w' \<Rightarrow> exec_busy es w'))"

definition racing :: "nat \<Rightarrow> world \<Rightarrow> bool" where
  "racing k v \<longleftrightarrow>
     k < nextIdle v \<and> race (idles v k) = Pending \<and> deadline (idles v k) = Armed"

text \<open>For statements about one concrete execution: a scheduler with a limit of 1, a
  submission without options, and observations of the final state; the counters are
  listed as \<open>total\<close>, \<open>completed\<close>, \<open>failed\<close>, \<open>running\<close>, \<open>pending\<close>.\<close>

definition limit_one :: config where
  "limit_one = \<lparr>cfg_concurrency = Some 1, cfg_timeout = None\<rparr>"

definition no_options :: options where
  "no_options = \<lparr>opt_timeout = None, opt_priority = None\<rparr>"

definition counters :: "world \<Rightarrow> int \<times> int \<times> int \<times> int \<times> int" where
  "counters w =
     (total' (stats w), completed (stats w), failed (stats w), running w, pending (stats w))"

definition timer_of :: "nat \<Rightarrow> world \<Rightarrow> timer" where
  "timer_of i w = timers w i"

definition idle_promise_of :: "nat \<Rightarrow> world \<Rightarrow> promise" where
  "idle_promise_of k w = idle_promise (idles w k)"

text \<open>The tasks that execute: admitted, the invocation of \<open>processQueue\<close> still suspended
  at its \<^verbatim>\<open>await\<close>, and not timed out (the timer is still armed).\<close>

definition in_flight :: "world \<Rightarrow> nat list" where
  "in_flight w = filter (\<lambda>i. awaiting w i \<and> timers w i = Armed) [0 ..< nextId w]"

section \<open>Lemmas\<close>

declare processQueue.simps [simp del]

subsection \<open>Executions\<close>

lemma exec_invariant:
  assumes "exec es w = Some w'" and "P w"
    and "\<And>e v v'. e \<in> set es \<Longrightarrow> P v \<Longrightarrow> fire e v = Some v' \<Longrightarrow> P v'"
  shows "P w'"
  using assms
proof (induction es arbitrary: w)
  case Nil
  then show ?case by simp
next
  case (Cons e es)
  from Cons.prems(1) obtain v where fv: "fire e w = Some v" and ev: "exec es v = Some w'"
    by (auto split: option.splits)
  have "P v" using Cons.prems(3)[of e w v] Cons.prems(2) fv by simp
  then show ?case using Cons.IH[OF ev] Cons.prems(3) by auto
qed

subsection \<open>processQueue, case by case\<close>

lemma processQueue_stop:
  "concurrency w \<le> running w \<or> queue w = [] \<Longrightarrow> processQueue w = w"
  by (subst processQueue.simps) auto

lemma processQueue_awaits:
  "running w < concurrency w \<Longrightarrow> queue w = it # rest \<Longrightarrow> task it = Awaits \<Longrightarrow>
   processQueue w = suspended it (admit it rest w)"
  by (subst processQueue.simps) (simp add: admit_def suspended_def Let_def)

lemma processQueue_throws:
  "running w < concurrency w \<Longrightarrow> queue w = it # rest \<Longrightarrow> task it = Throws e \<Longrightarrow>
   processQueue w = processQueue (thrown it e (admit it rest w))"
  by (subst processQueue.simps) (simp add: admit_def thrown_def Let_def)

lemma processQueue_rel [case_names stop awaits throws]:
  assumes stop: "\<And>w. concurrency w \<le> running w \<or> queue w = [] \<Longrightarrow> P w w"
    and awaits: "\<And>w it rest. running w < concurrency w \<Longrightarrow> queue w = it # rest \<Longrightarrow>
                   task it = Awaits \<Longrightarrow> P w (suspended it (admit it rest w))"
    and throws: "\<And>w it rest e. running w < concurrency w \<Longrightarrow> queue w = it # rest \<Longrightarrow>
                   task it = Throws e \<Longrightarrow>
                   P (thrown it e (admit it rest w)) (processQueue (thrown it e (admit it rest w))) \<Longrightarrow>
                   P w (processQueue (thrown it e (admit it rest w)))"
  shows "P w (processQueue w)"
proof (induction w rule: processQueue.induct)
  case (1 w)
  show ?case
  proof (cases "concurrency w \<le> running w \<or> queue w = []")
    case True
    then show ?thesis using stop[of w] by (simp add: processQueue_stop)
  next
    case False
    then obtain it rest where q: "queue w = it # rest" by (cases "queue w") auto
    from False have r: "running w < concurrency w" by simp
    show ?thesis
    proof (cases "task it")
      case Awaits
      then show ?thesis using awaits[OF r q] by (simp add: processQueue_awaits[OF r q])
    next
      case (Throws e)
      have "P (thrown it e (admit it rest w)) (processQueue (thrown it e (admit it rest w)))"
        using "1.IH"[of it rest _ e] False q Throws
        by (simp add: admit_def thrown_def)
      then show ?thesis using throws[OF r q Throws] by (simp add: processQueue_throws[OF r q Throws])
    qed
  qed
qed

subsection \<open>What each piece changes\<close>

lemma reject_frame [simp]:
  "concurrency (reject i e w) = concurrency w"
  "timeout (reject i e w) = timeout w"
  "queue (reject i e w) = queue w"
  "running (reject i e w) = running w"
  "stats (reject i e w) = stats w"
  "timers (reject i e w) = timers w"
  "awaiting (reject i e w) = awaiting w"
  "nextId (reject i e w) = nextId w"
  "idles (reject i e w) = idles w"
  "nextIdle (reject i e w) = nextIdle w"
  "promises (reject i e w) j = (if j = i \<and> promises w i = Pending then Rejected e else promises w j)"
  by (simp_all add: reject_def)

lemma resolve_frame [simp]:
  "concurrency (resolve i v w) = concurrency w"
  "timeout (resolve i v w) = timeout w"
  "queue (resolve i v w) = queue w"
  "running (resolve i v w) = running w"
  "stats (resolve i v w) = stats w"
  "timers (resolve i v w) = timers w"
  "awaiting (resolve i v w) = awaiting w"
  "nextId (resolve i v w) = nextId w"
  "idles (resolve i v w) = idles w"
  "nextIdle (resolve i v w) = nextIdle w"
  "promises (resolve i v w) j = (if j = i \<and> promises w i = Pending then Resolved v else promises w j)"
  by (simp_all add: resolve_def)

lemma clearTimeout_frame [simp]:
  "concurrency (clearTimeout i w) = concurrency w"
  "timeout (clearTimeout i w) = timeout w"
  "queue (clearTimeout i w) = queue w"
  "running (clearTimeout i w) = running w"
  "stats (clearTimeout i w) = stats w"
  "promises (clearTimeout i w) = promises w"
  "awaiting (clearTimeout i w) = awaiting w"
  "nextId (clearTimeout i w) = nextId w"
  "idles (clearTimeout i w) = idles w"
  "nextIdle (clearTimeout i w) = nextIdle w"
  "timers (clearTimeout i w) j = (if j = i \<and> timers w i = Armed then Cleared else timers w j)"
  by (simp_all add: clearTimeout_def)

lemma admit_frame [simp]:
  "concurrency (admit it rest w) = concurrency w"
  "timeout (admit it rest w) = timeout w"
  "queue (admit it rest w) = rest"
  "running (admit it rest w) = running w + 1"
  "stats (admit it rest w) = (stats w)\<lparr>pending := pending (stats w) - 1\<rparr>"
  "promises (admit it rest w) = promises w"
  "awaiting (admit it rest w) = awaiting w"
  "nextId (admit it rest w) = nextId w"
  "idles (admit it rest w) = idles w"
  "nextIdle (admit it rest w) = nextIdle w"
  "timers (admit it rest w) = (timers w)(ident it := Armed)"
  by (simp_all add: admit_def)

lemma suspended_frame [simp]:
  "concurrency (suspended it w) = concurrency w"
  "timeout (suspended it w) = timeout w"
  "queue (suspended it w) = queue w"
  "running (suspended it w) = running w"
  "stats (suspended it w) = stats w"
  "promises (suspended it w) = promises w"
  "timers (suspended it w) = timers w"
  "nextId (suspended it w) = nextId w"
  "idles (suspended it w) = idles w"
  "nextIdle (suspended it w) = nextIdle w"
  "awaiting (suspended it w) = (awaiting w)(ident it := True)"
  by (simp_all add: suspended_def)

lemma thrown_frame [simp]:
  "concurrency (thrown it e w) = concurrency w"
  "timeout (thrown it e w) = timeout w"
  "queue (thrown it e w) = queue w"
  "running (thrown it e w) = running w - 1"
  "stats (thrown it e w) = (stats w)\<lparr>failed := failed (stats w) + 1\<rparr>"
  "timers (thrown it e w) = timers w"
  "awaiting (thrown it e w) = awaiting w"
  "nextId (thrown it e w) = nextId w"
  "idles (thrown it e w) = idles w"
  "nextIdle (thrown it e w) = nextIdle w"
  "promises (thrown it e w) j =
     (if j = ident it \<and> promises w (ident it) = Pending then Rejected e else promises w j)"
  by (simp_all add: thrown_def)

subsection \<open>What processQueue keeps\<close>

lemma processQueue_concurrency [simp]: "concurrency (processQueue w) = concurrency w"
  by (rule processQueue_rel[where P = "\<lambda>w w'. concurrency w' = concurrency w"])
     simp_all

lemma processQueue_timeout [simp]: "timeout (processQueue w) = timeout w"
  by (rule processQueue_rel[where P = "\<lambda>w w'. timeout w' = timeout w"])
     simp_all

lemma processQueue_nextId [simp]: "nextId (processQueue w) = nextId w"
  by (rule processQueue_rel[where P = "\<lambda>w w'. nextId w' = nextId w"])
     simp_all

lemma processQueue_idles [simp]: "idles (processQueue w) = idles w"
  by (rule processQueue_rel[where P = "\<lambda>w w'. idles w' = idles w"])
     simp_all

lemma processQueue_nextIdle [simp]: "nextIdle (processQueue w) = nextIdle w"
  by (rule processQueue_rel[where P = "\<lambda>w w'. nextIdle w' = nextIdle w"])
     simp_all

lemma processQueue_total [simp]: "total' (stats (processQueue w)) = total' (stats w)"
  by (rule processQueue_rel[where P = "\<lambda>w w'. total' (stats w') = total' (stats w)"])
     simp_all

lemma processQueue_completed [simp]: "completed (stats (processQueue w)) = completed (stats w)"
  by (rule processQueue_rel[where P = "\<lambda>w w'. completed (stats w') = completed (stats w)"])
     simp_all


lemma processQueue_backlog:
  "pending (stats (processQueue w)) - int (length (queue (processQueue w)))
   = pending (stats w) - int (length (queue w))"
  by (rule processQueue_rel[where P = "\<lambda>w w'. pending (stats w') - int (length (queue w'))
        = pending (stats w) - int (length (queue w))"])
     simp_all

lemma processQueue_gate:
  "running w \<le> concurrency w \<Longrightarrow> running (processQueue w) \<le> concurrency w"
  by (rule processQueue_rel[where P = "\<lambda>w w'. running w \<le> concurrency w \<longrightarrow> running w' \<le> concurrency w", rule_format])
     simp_all

lemma processQueue_settled:
  "promises w j \<noteq> Pending \<Longrightarrow> promises (processQueue w) j = promises w j"
  by (rule processQueue_rel[where P = "\<lambda>w w'. promises w j \<noteq> Pending \<longrightarrow> promises w' j = promises w j", rule_format])
     auto

lemma processQueue_armed:
  "timers w j = Armed \<Longrightarrow> timers (processQueue w) j = Armed"
  by (rule processQueue_rel[where P = "\<lambda>w w'. timers w j = Armed \<longrightarrow> timers w' j = Armed", rule_format])
     auto

lemma processQueue_elsewhere:
  "j \<notin> ident ` set (queue w) \<Longrightarrow>
   promises (processQueue w) j = promises w j \<and> timers (processQueue w) j = timers w j
   \<and> awaiting (processQueue w) j = awaiting w j"
  by (rule processQueue_rel[where P = "\<lambda>w w'. j \<notin> ident ` set (queue w) \<longrightarrow>
        promises w' j = promises w j \<and> timers w' j = timers w j \<and> awaiting w' j = awaiting w j", rule_format])
     auto

lemma processQueue_prefix:
  "\<exists>k. queue (processQueue w) = drop k (queue w)
       \<and> (\<forall>x \<in> set (take k (queue w)). timers (processQueue w) (ident x) = Armed)
       \<and> (\<forall>x \<in> set (butlast (take k (queue w))). task x \<noteq> Awaits)"
proof (rule processQueue_rel[where P = "\<lambda>w w'. \<exists>k. queue w' = drop k (queue w)
       \<and> (\<forall>x \<in> set (take k (queue w)). timers w' (ident x) = Armed)
       \<and> (\<forall>x \<in> set (butlast (take k (queue w))). task x \<noteq> Awaits)"], goal_cases)
  case (1 w)
  show ?case by (rule exI[of _ 0]) simp
next
  case (2 w it rest)
  show ?case by (rule exI[of _ 1]) (simp add: 2)
next
  case (3 w it rest e)
  let ?m = "thrown it e (admit it rest w)"
  from 3(4) obtain k where k: "queue (processQueue ?m) = drop k (queue ?m)"
    "\<forall>x \<in> set (take k (queue ?m)). timers (processQueue ?m) (ident x) = Armed"
    "\<forall>x \<in> set (butlast (take k (queue ?m))). task x \<noteq> Awaits" by blast
  have qm: "queue ?m = rest" by simp
  have "timers ?m (ident it) = Armed" by simp
  then have a: "timers (processQueue ?m) (ident it) = Armed" by (rule processQueue_armed)
  show ?case
    by (rule exI[of _ "Suc k"]) (use k a 3 qm in \<open>auto simp: butlast.simps split: if_splits\<close>)
qed

subsection \<open>The events, unfolded\<close>

lemma idle_same_tasks:
  "same_tasks w (resolveIdle k w)"
  "same_tasks w (checkIdle k w)"
  "same_tasks w (snd (onIdle w))"
  "same_tasks w (snd (onIdleWithTimeout ms w))"
  "same_tasks w (pollFired k w)"
  "same_tasks w (deadlineFired k w)"
  by (simp_all add: same_tasks_def resolveIdle_def checkIdle_def onIdle_def onIdleWithTimeout_def
        pollFired_def deadlineFired_def Let_def split_def)

lemma addTask_unfold:
  "addTask t opts now w = (nextId w, processQueue (enqueue t opts now w))"
  by (simp add: addTask_def enqueue_def new_item_def Let_def)

lemma settle_unfold:
  "settle i (Inr v) w = processQueue (fulfilled i v w)"
  "settle i (Inl e) w = processQueue (failing i e w)"
  by (simp_all add: settle_def fulfilled_def failing_def Let_def)

lemma timerFired_unfold: "timerFired i w = processQueue (expired i w)"
  by (simp add: timerFired_def expired_def Let_def)

lemma enqueue_frame [simp]:
  "concurrency (enqueue t opts now w) = concurrency w"
  "timeout (enqueue t opts now w) = timeout w"
  "running (enqueue t opts now w) = running w"
  "timers (enqueue t opts now w) = timers w"
  "awaiting (enqueue t opts now w) = awaiting w"
  "idles (enqueue t opts now w) = idles w"
  "nextIdle (enqueue t opts now w) = nextIdle w"
  "nextId (enqueue t opts now w) = nextId w + 1"
  "promises (enqueue t opts now w) = (promises w)(nextId w := Pending)"
  "stats (enqueue t opts now w) =
     (stats w)\<lparr>total' := total' (stats w) + 1, pending := pending (stats w) + 1\<rparr>"
  "queue (enqueue t opts now w) =
     sort_key (\<lambda>a. - priority a) (queue w @ [new_item t opts now w])"
  by (simp_all add: enqueue_def)

lemma fulfilled_frame [simp]:
  "concurrency (fulfilled i v w) = concurrency w"
  "timeout (fulfilled i v w) = timeout w"
  "queue (fulfilled i v w) = queue w"
  "running (fulfilled i v w) = running w - 1"
  "stats (fulfilled i v w) = (stats w)\<lparr>completed := completed (stats w) + 1\<rparr>"
  "nextId (fulfilled i v w) = nextId w"
  "idles (fulfilled i v w) = idles w"
  "nextIdle (fulfilled i v w) = nextIdle w"
  "awaiting (fulfilled i v w) = (awaiting w)(i := False)"
  "timers (fulfilled i v w) j = (if j = i \<and> timers w i = Armed then Cleared else timers w j)"
  "promises (fulfilled i v w) j =
     (if j = i \<and> promises w i = Pending then Resolved v else promises w j)"
  by (simp_all add: fulfilled_def)

lemma failing_frame [simp]:
  "concurrency (failing i e w) = concurrency w"
  "timeout (failing i e w) = timeout w"
  "queue (failing i e w) = queue w"
  "running (failing i e w) = running w - 1"
  "stats (failing i e w) = (stats w)\<lparr>failed := failed (stats w) + 1\<rparr>"
  "nextId (failing i e w) = nextId w"
  "idles (failing i e w) = idles w"
  "nextIdle (failing i e w) = nextIdle w"
  "awaiting (failing i e w) = (awaiting w)(i := False)"
  "timers (failing i e w) = timers w"
  "promises (failing i e w) j =
     (if j = i \<and> promises w i = Pending then Rejected e else promises w j)"
  by (simp_all add: failing_def)

lemma expired_frame [simp]:
  "concurrency (expired i w) = concurrency w"
  "timeout (expired i w) = timeout w"
  "queue (expired i w) = queue w"
  "running (expired i w) = running w - 1"
  "stats (expired i w) = (stats w)\<lparr>failed := failed (stats w) + 1\<rparr>"
  "nextId (expired i w) = nextId w"
  "idles (expired i w) = idles w"
  "nextIdle (expired i w) = nextIdle w"
  "awaiting (expired i w) = awaiting w"
  "timers (expired i w) = (timers w)(i := Fired)"
  "promises (expired i w) j =
     (if j = i \<and> promises w i = Pending then Rejected (Error ''Task timeout'')
      else promises w j)"
  by (simp_all add: expired_def)

lemma fire_cases [consumes 1, case_names AddTask Fulfil Fail Expire Clear Reset Idle]:
  assumes "fire e w = Some w'"
  obtains
    (AddTask) t opts now where "e = AddTask t opts now"
      and "w' = processQueue (enqueue t opts now w)"
  | (Fulfil) i v where "e = Settle i (Inr v)" and "awaiting w i"
      and "w' = processQueue (fulfilled i v w)"
  | (Fail) i err where "e = Settle i (Inl err)" and "awaiting w i"
      and "w' = processQueue (failing i err w)"
  | (Expire) i where "e = TimerFire i" and "timers w i = Armed"
      and "w' = processQueue (expired i w)"
  | (Clear) "e = ClearQueue" and "w' = clear w"
  | (Reset) "e = ResetStats" and "w' = resetStats w"
  | (Idle) "e \<noteq> ClearQueue" and "e \<noteq> ResetStats" and "same_tasks w w'"
proof (cases e)
  case (AddTask t opts now)
  then show ?thesis using assms that(1) by (simp add: addTask_unfold)
next
  case (Settle i r)
  then show ?thesis using assms that(2,3)
    by (cases r) (auto simp: settle_unfold split: if_splits)
next
  case (TimerFire i)
  then show ?thesis using assms that(4) by (auto simp: timerFired_unfold split: if_splits)
next
  case ClearQueue
  then show ?thesis using assms that(5) by simp
next
  case ResetStats
  then show ?thesis using assms that(6) by simp
next
  case OnIdle
  then show ?thesis using assms that(7) idle_same_tasks(3)[of w] by auto
next
  case (OnIdleWithTimeout ms)
  then show ?thesis using assms that(7) idle_same_tasks(4)[of w ms] by auto
next
  case (PollFire k)
  then show ?thesis using assms that(7) idle_same_tasks(5)[of w k] by (auto split: if_splits)
next
  case (DeadlineFire k)
  then show ?thesis using assms that(7) idle_same_tasks(6)[of w k] by (auto split: if_splits)
qed

subsection \<open>The counters\<close>



lemma backlog_ok_processQueue: "backlog_ok w \<Longrightarrow> backlog_ok (processQueue w)"
  using processQueue_backlog[of w] by (simp add: backlog_ok_def)

lemma backlog_ok_fire:
  assumes "fire e w = Some w'" and "e \<noteq> ResetStats" and "backlog_ok w"
  shows "backlog_ok w'"
  using assms(1)
proof (cases rule: fire_cases)
  case (AddTask t opts now)
  have "backlog_ok (enqueue t opts now w)" using assms(3) by (simp add: backlog_ok_def)
  then show ?thesis unfolding AddTask(2) by (rule backlog_ok_processQueue)
next
  case (Fulfil i v)
  have "backlog_ok (fulfilled i v w)" using assms(3) by (simp add: backlog_ok_def)
  then show ?thesis unfolding Fulfil(3) by (rule backlog_ok_processQueue)
next
  case (Fail i err)
  have "backlog_ok (failing i err w)" using assms(3) by (simp add: backlog_ok_def)
  then show ?thesis unfolding Fail(3) by (rule backlog_ok_processQueue)
next
  case (Expire i)
  have "backlog_ok (expired i w)" using assms(3) by (simp add: backlog_ok_def)
  then show ?thesis unfolding Expire(3) by (rule backlog_ok_processQueue)
next
  case Clear
  then show ?thesis by (simp add: backlog_ok_def clear_def Let_def)
next
  case Idle
  then show ?thesis using assms(3) by (simp add: backlog_ok_def same_tasks_def)
qed (use assms in simp_all)

lemma backlog_offset_fire:
  assumes "fire e w = Some w'" and "e \<noteq> ClearQueue" and "e \<noteq> ResetStats"
  shows "pending (stats w') - int (length (queue w')) = pending (stats w) - int (length (queue w))"
  using assms(1)
proof (cases rule: fire_cases)
  case (AddTask t opts now)
  then show ?thesis using processQueue_backlog[of "enqueue t opts now w"] by simp
next
  case (Fulfil i v)
  then show ?thesis using processQueue_backlog[of "fulfilled i v w"] by simp
next
  case (Fail i err)
  then show ?thesis using processQueue_backlog[of "failing i err w"] by simp
next
  case (Expire i)
  then show ?thesis using processQueue_backlog[of "expired i w"] by simp
next
  case Idle
  then show ?thesis by (simp add: same_tasks_def)
qed (use assms in simp_all)

subsection \<open>clear\<close>

lemma fold_reject_frame [simp]:
  "concurrency (fold (\<lambda>it. reject (ident it) e) xs w) = concurrency w"
  "timeout (fold (\<lambda>it. reject (ident it) e) xs w) = timeout w"
  "queue (fold (\<lambda>it. reject (ident it) e) xs w) = queue w"
  "running (fold (\<lambda>it. reject (ident it) e) xs w) = running w"
  "stats (fold (\<lambda>it. reject (ident it) e) xs w) = stats w"
  "timers (fold (\<lambda>it. reject (ident it) e) xs w) = timers w"
  "awaiting (fold (\<lambda>it. reject (ident it) e) xs w) = awaiting w"
  "nextId (fold (\<lambda>it. reject (ident it) e) xs w) = nextId w"
  "idles (fold (\<lambda>it. reject (ident it) e) xs w) = idles w"
  "nextIdle (fold (\<lambda>it. reject (ident it) e) xs w) = nextIdle w"
  by (induction xs arbitrary: w; simp)+

lemma fold_reject_promises:
  "promises (fold (\<lambda>it. reject (ident it) e) xs w) j =
     (if j \<in> ident ` set xs \<and> promises w j = Pending then Rejected e else promises w j)"
  by (induction xs arbitrary: w) auto

lemma clear_frame [simp]:
  "concurrency (clear w) = concurrency w"
  "timeout (clear w) = timeout w"
  "queue (clear w) = []"
  "running (clear w) = running w"
  "stats (clear w) = (stats w)\<lparr>pending := 0\<rparr>"
  "timers (clear w) = timers w"
  "awaiting (clear w) = awaiting w"
  "nextId (clear w) = nextId w"
  "idles (clear w) = idles w"
  "nextIdle (clear w) = nextIdle w"
  "promises (clear w) j =
     (if j \<in> ident ` set (queue w) \<and> promises w j = Pending
      then Rejected (Error ''Queue cleared'') else promises w j)"
  by (simp_all add: clear_def Let_def fold_reject_promises)

subsection \<open>The gate\<close>

lemma gate_fire:
  assumes "fire e w = Some w'" and "running w \<le> concurrency w"
  shows "concurrency w' = concurrency w \<and> running w' \<le> concurrency w"
  using assms(1)
proof (cases rule: fire_cases)
  case (AddTask t opts now)
  then show ?thesis using assms(2) processQueue_gate[of "enqueue t opts now w"] by simp
next
  case (Fulfil i v)
  then show ?thesis using assms(2) processQueue_gate[of "fulfilled i v w"] by simp
next
  case (Fail i err)
  then show ?thesis using assms(2) processQueue_gate[of "failing i err w"] by simp
next
  case (Expire i)
  then show ?thesis using assms(2) processQueue_gate[of "expired i w"] by simp
next
  case Clear
  then show ?thesis using assms(2) by simp
next
  case Reset
  then show ?thesis using assms(2) by (simp add: resetStats_def)
next
  case Idle
  then show ?thesis using assms(2) by (simp add: same_tasks_def)
qed

lemma gate_exec:
  assumes "exec es w = Some w'" and "running w \<le> concurrency w"
  shows "concurrency w' = concurrency w \<and> running w' \<le> concurrency w'"
proof (rule exec_invariant[OF assms(1),
      where P = "\<lambda>v. concurrency v = concurrency w \<and> running v \<le> concurrency v"])
  show "concurrency w = concurrency w \<and> running w \<le> concurrency w" using assms(2) by simp
next
  fix e v v'
  assume "concurrency v = concurrency w \<and> running v \<le> concurrency v" and "fire e v = Some v'"
  then show "concurrency v' = concurrency w \<and> running v' \<le> concurrency v'"
    using gate_fire[of e v v'] by simp
qed

subsection \<open>Sorting the queue\<close>

lemma insort_before:
  assumes "sorted_wrt before ys"
    and "\<forall>y \<in> set ys. priority y = priority a \<longrightarrow> ident a < ident y"
  shows "sorted_wrt before (insort_key (\<lambda>a. - priority a) a ys)"
  using assms
proof (induction ys)
  case Nil
  then show ?case by simp
next
  case (Cons y ys)
  show ?case
  proof (cases "priority y \<le> priority a")
    case True
    have "before a z" if "z \<in> set (y # ys)" for z
    proof -
      have "priority z \<le> priority y" using that Cons.prems(1) by (auto simp: before_def)
      then show ?thesis using True Cons.prems(2) that by (auto simp: before_def)
    qed
    then show ?thesis using True Cons.prems(1) by simp
  next
    case False
    then have "before y a" by (simp add: before_def)
    then show ?thesis using False Cons by (auto simp: set_insort_key)
  qed
qed

lemma set_foldr_insort:
  "set (foldr (insort_key f) xs acc) = set xs \<union> set acc"
  by (induction xs) (auto simp: set_insort_key)

lemma foldr_insort_before:
  assumes "sorted_wrt before xs" and "sorted_wrt before acc"
    and "\<forall>a \<in> set xs. \<forall>y \<in> set acc. priority y = priority a \<longrightarrow> ident a < ident y"
  shows "sorted_wrt before (foldr (insort_key (\<lambda>a. - priority a)) xs acc)"
  using assms
proof (induction xs)
  case Nil
  then show ?case by simp
next
  case (Cons a xs)
  have s: "sorted_wrt before (foldr (insort_key (\<lambda>a. - priority a)) xs acc)"
    using Cons by simp
  have "\<forall>y \<in> set (foldr (insort_key (\<lambda>a. - priority a)) xs acc).
          priority y = priority a \<longrightarrow> ident a < ident y"
    using Cons.prems by (auto simp: set_foldr_insort before_def)
  then show ?case using insort_before[OF s] by simp
qed

lemma sort_new_item_before:
  assumes "sorted_wrt before xs" and "\<forall>y \<in> set xs. ident y < ident x"
  shows "sorted_wrt before (sort_key (\<lambda>a. - priority a) (xs @ [x]))"
proof -
  have "sort_key (\<lambda>a. - priority a) (xs @ [x]) = foldr (insort_key (\<lambda>a. - priority a)) xs [x]"
    by (simp add: sort_key_def)
  then show ?thesis using foldr_insort_before[OF assms(1), of "[x]"] assms(2) by simp
qed

lemma distinct_ident_sort:
  "distinct (map ident (sort_key f xs)) = distinct (map ident xs)"
  by (simp add: distinct_map)

subsection \<open>The invariant of the queue and the runtime\<close>

lemma consistent_constructor: "consistent (constructor cfg)"
  by (simp add: consistent_def constructor_def)

lemma consistent_suspended:
  assumes "consistent w" and "queue w = it # rest"
  shows "consistent (suspended it (admit it rest w))"
  using assms by (auto simp: consistent_def image_iff)

lemma consistent_thrown:
  assumes "consistent w" and "queue w = it # rest"
  shows "consistent (thrown it e (admit it rest w))"
  using assms by (auto simp: consistent_def image_iff)

lemma consistent_processQueue: "consistent w \<Longrightarrow> consistent (processQueue w)"
  by (rule processQueue_rel[where P = "\<lambda>w w'. consistent w \<longrightarrow> consistent w'", rule_format])
     (auto simp: consistent_suspended consistent_thrown)

lemma consistent_enqueue:
  assumes "consistent w"
  shows "consistent (enqueue t opts now w)"
proof -
  let ?x = "new_item t opts now w"
  have i: "ident ?x = nextId w" by (simp add: new_item_def)
  have "sorted_wrt before (sort_key (\<lambda>a. - priority a) (queue w @ [?x]))"
    using assms i by (intro sort_new_item_before) (auto simp: consistent_def)
  moreover have "distinct (map ident (queue w @ [?x]))"
    using assms i by (auto simp: consistent_def)
  ultimately show ?thesis using assms i
    unfolding consistent_def enqueue_frame distinct_ident_sort
    by (auto simp: less_Suc_eq)
qed

lemma consistent_fulfilled:
  assumes "consistent w" and "awaiting w i"
  shows "consistent (fulfilled i v w)"
  using assms by (auto simp: consistent_def)

lemma consistent_failing:
  assumes "consistent w" and "awaiting w i"
  shows "consistent (failing i e w)"
  using assms by (auto simp: consistent_def)

lemma consistent_expired:
  assumes "consistent w" and "timers w i = Armed"
  shows "consistent (expired i w)"
  using assms by (auto simp: consistent_def)

lemma consistent_clear: "consistent w \<Longrightarrow> consistent (clear w)"
  by (auto simp: consistent_def)

lemma consistent_fire:
  assumes "fire e w = Some w'" and "consistent w"
  shows "consistent w'"
  using assms(1)
proof (cases rule: fire_cases)
  case (AddTask t opts now)
  then show ?thesis using assms(2) by (simp add: consistent_processQueue consistent_enqueue)
next
  case (Fulfil i v)
  then show ?thesis using assms(2) by (simp add: consistent_processQueue consistent_fulfilled)
next
  case (Fail i err)
  then show ?thesis using assms(2) by (simp add: consistent_processQueue consistent_failing)
next
  case (Expire i)
  then show ?thesis using assms(2) by (simp add: consistent_processQueue consistent_expired)
next
  case Clear
  then show ?thesis using assms(2) by (simp add: consistent_clear)
next
  case Reset
  then show ?thesis using assms(2) by (simp add: consistent_def resetStats_def)
next
  case Idle
  then show ?thesis using assms(2) by (simp add: consistent_def same_tasks_def)
qed

lemma consistent_exec:
  assumes "exec es (constructor cfg) = Some w"
  shows "consistent w"
  by (rule exec_invariant[OF assms, where P = consistent])
     (auto simp: consistent_constructor consistent_fire)

subsection \<open>The head of the queue\<close>

lemma processQueue_failed_mono: "failed (stats w) \<le> failed (stats (processQueue w))"
  by (rule processQueue_rel[where P = "\<lambda>w w'. failed (stats w) \<le> failed (stats w')"]) simp_all

lemma processQueue_timer_kept:
  "timers w j \<noteq> Unset \<Longrightarrow> timers (processQueue w) j \<noteq> Unset"
  by (rule processQueue_rel[where P = "\<lambda>w w'. timers w j \<noteq> Unset \<longrightarrow> timers w' j \<noteq> Unset", rule_format])
     auto

lemma processQueue_queue_subset: "set (queue (processQueue w)) \<subseteq> set (queue w)"
proof -
  obtain k where "queue (processQueue w) = drop k (queue w)"
    using processQueue_prefix[of w] by blast
  then show ?thesis by (simp add: set_drop_subset)
qed

lemma processQueue_head:
  assumes "running w < concurrency w" and "queue w = it # rest"
    and "distinct (map ident (queue w))"
  shows "timers (processQueue w) (ident it) = Armed"
    and "it \<notin> set (queue (processQueue w))"
    and "task it = Awaits \<Longrightarrow> processQueue w = suspended it (admit it rest w)"
    and "task it = Throws e \<Longrightarrow> promises w (ident it) = Pending \<Longrightarrow>
           promises (processQueue w) (ident it) = Rejected e
           \<and> failed (stats w) + 1 \<le> failed (stats (processQueue w))"
proof -
  have nin: "it \<notin> set rest" using assms(2,3) by auto
  show "task it = Awaits \<Longrightarrow> processQueue w = suspended it (admit it rest w)"
    using processQueue_awaits[OF assms(1,2)] by simp
  show "timers (processQueue w) (ident it) = Armed"
  proof (cases "task it")
    case Awaits
    then show ?thesis using processQueue_awaits[OF assms(1,2)] by simp
  next
    case (Throws err)
    then show ?thesis
      using processQueue_throws[OF assms(1,2) Throws]
        processQueue_armed[of "thrown it err (admit it rest w)" "ident it"] by simp
  qed
  show "it \<notin> set (queue (processQueue w))"
  proof (cases "task it")
    case Awaits
    then show ?thesis using processQueue_awaits[OF assms(1,2)] nin by simp
  next
    case (Throws err)
    then show ?thesis
      using processQueue_throws[OF assms(1,2) Throws] nin
        processQueue_queue_subset[of "thrown it err (admit it rest w)"] by auto
  qed
  show "promises (processQueue w) (ident it) = Rejected e
         \<and> failed (stats w) + 1 \<le> failed (stats (processQueue w))"
    if t: "task it = Throws e" and p: "promises w (ident it) = Pending"
  proof -
    let ?m = "thrown it e (admit it rest w)"
    have "promises ?m (ident it) = Rejected e" using p by simp
    then have "promises (processQueue ?m) (ident it) = Rejected e"
      using processQueue_settled[of ?m "ident it"] by simp
    moreover have "failed (stats ?m) \<le> failed (stats (processQueue ?m))"
      by (rule processQueue_failed_mono)
    ultimately show ?thesis using processQueue_throws[OF assms(1,2) t] by simp
  qed
qed

subsection \<open>The order of admission\<close>

lemma before_asym: "before a b \<Longrightarrow> \<not> before b a"
  by (auto simp: before_def)

lemma sorted_wrt_take_drop:
  assumes "sorted_wrt P xs" and "x \<in> set (take k xs)" and "y \<in> set (drop k xs)"
  shows "P x y"
proof -
  have "sorted_wrt P (take k xs @ drop k xs)" using assms(1) by simp
  then show ?thesis using assms(2,3) unfolding sorted_wrt_append by blast
qed

lemma sorted_wrt_butlast_last:
  assumes "sorted_wrt P xs" and "x \<in> set xs" and "x \<notin> set (butlast xs)" and "y \<in> set xs"
    and "y \<noteq> x"
  shows "P y x"
proof -
  have ne: "xs \<noteq> []" using assms(2) by auto
  then have xs: "xs = butlast xs @ [last xs]" by simp
  have "x = last xs" using assms(2,3) xs by (metis Un_iff empty_iff insert_iff list.set(1) list.set(2) set_append)
  moreover have "y \<in> set (butlast xs)" using assms(4,5) xs calculation
    by (metis Un_iff empty_iff insert_iff list.set(1) list.set(2) set_append)
  moreover have "sorted_wrt P (butlast xs @ [last xs])" using assms(1) xs by simp
  ultimately show ?thesis unfolding sorted_wrt_append by simp
qed

lemma order_step:
  assumes "consistent m" and "a \<in> set (queue m)" and "b \<in> set (queue m)" and "before a b"
    and "b \<notin> set (queue (processQueue m))"
  shows "a \<notin> set (queue (processQueue m))" and "task a \<noteq> Awaits"
proof -
  obtain k where k: "queue (processQueue m) = drop k (queue m)"
    and throwers: "\<forall>x \<in> set (butlast (take k (queue m))). task x \<noteq> Awaits"
    using processQueue_prefix[of m] by blast
  have s: "sorted_wrt before (queue m)" using assms(1) by (simp add: consistent_def)
  have "set (queue m) = set (take k (queue m)) \<union> set (drop k (queue m))"
    by (metis append_take_drop_id set_append)
  then have bt: "b \<in> set (take k (queue m))" using assms(3,5) k by auto
  show na: "a \<notin> set (queue (processQueue m))"
  proof
    assume "a \<in> set (queue (processQueue m))"
    then have "a \<in> set (drop k (queue m))" using k by simp
    then have "before b a" using sorted_wrt_take_drop[OF s bt] by simp
    then show False using assms(4) before_asym by blast
  qed
  have at: "a \<in> set (take k (queue m))"
    using \<open>set (queue m) = set (take k (queue m)) \<union> set (drop k (queue m))\<close> assms(2) na k by auto
  have st: "sorted_wrt before (take k (queue m))" using s by (rule sorted_wrt_take)
  have "a \<noteq> b" using assms(4) by (auto simp: before_def)
  have "a \<in> set (butlast (take k (queue m)))"
  proof (rule ccontr)
    assume "a \<notin> set (butlast (take k (queue m)))"
    then have "before b a"
      using sorted_wrt_butlast_last[OF st at _ bt] \<open>a \<noteq> b\<close> by blast
    then show False using assms(4) before_asym by blast
  qed
  then show "task a \<noteq> Awaits" using throwers by blast
qed

lemma processQueue_leaves:
  assumes "x \<in> set (queue m)"
  shows "x \<in> set (queue (processQueue m)) \<or> timers (processQueue m) (ident x) = Armed"
proof -
  obtain k where k: "queue (processQueue m) = drop k (queue m)"
    and armed: "\<forall>x \<in> set (take k (queue m)). timers (processQueue m) (ident x) = Armed"
    using processQueue_prefix[of m] by blast
  have "set (queue m) = set (take k (queue m)) \<union> set (drop k (queue m))"
    by (metis append_take_drop_id set_append)
  then show ?thesis using assms k armed by auto
qed

lemma ordered_pair_processQueue:
  assumes "ordered_pair a b m" and "before a b"
  shows "ordered_pair a b (processQueue m)"
proof -
  have c: "consistent m" using assms(1) by (simp add: ordered_pair_def)
  have "a \<in> set (queue (processQueue m)) \<or> timers (processQueue m) (ident a) \<noteq> Unset"
    using assms(1) processQueue_leaves[of a m] processQueue_timer_kept[of m "ident a"]
    by (auto simp: ordered_pair_def)
  moreover have "b \<in> set (queue (processQueue m)) \<or> timers (processQueue m) (ident b) \<noteq> Unset"
    using assms(1) processQueue_leaves[of b m] processQueue_timer_kept[of m "ident b"]
    by (auto simp: ordered_pair_def)
  moreover have "b \<in> set (queue (processQueue m))" if "a \<in> set (queue (processQueue m))"
  proof (rule ccontr)
    assume nb: "b \<notin> set (queue (processQueue m))"
    have am: "a \<in> set (queue m)" using that processQueue_queue_subset[of m] by auto
    then have bm: "b \<in> set (queue m)" using assms(1) by (simp add: ordered_pair_def)
    show False using order_step(1)[OF c am bm assms(2) nb] that by simp
  qed
  ultimately show ?thesis using assms(1) consistent_processQueue[OF c]
    by (simp add: ordered_pair_def)
qed

lemma ordered_pair_fire:
  assumes "fire e v = Some v'" and "e \<noteq> ClearQueue" and "ordered_pair a b v" and "before a b"
  shows "ordered_pair a b v'"
  using assms(1)
proof (cases rule: fire_cases)
  case (AddTask t opts now)
  have "ident (new_item t opts now v) = nextId v" by (simp add: new_item_def)
  then have "ordered_pair a b (enqueue t opts now v)"
    using assms(3) consistent_enqueue[of v t opts now] by (auto simp: ordered_pair_def)
  then show ?thesis unfolding AddTask(2) using assms(4) by (rule ordered_pair_processQueue)
next
  case (Fulfil i x)
  have "ordered_pair a b (fulfilled i x v)"
    using assms(3) consistent_fulfilled[of v i x] Fulfil(2) by (auto simp: ordered_pair_def)
  then show ?thesis unfolding Fulfil(3) using assms(4) by (rule ordered_pair_processQueue)
next
  case (Fail i err)
  have "ordered_pair a b (failing i err v)"
    using assms(3) consistent_failing[of v i err] Fail(2) by (auto simp: ordered_pair_def)
  then show ?thesis unfolding Fail(3) using assms(4) by (rule ordered_pair_processQueue)
next
  case (Expire i)
  have "ordered_pair a b (expired i v)"
    using assms(3) consistent_expired[of v i] Expire(2) by (auto simp: ordered_pair_def)
  then show ?thesis unfolding Expire(3) using assms(4) by (rule ordered_pair_processQueue)
next
  case Clear
  then show ?thesis using assms(2) by simp
next
  case Reset
  then show ?thesis using assms(3) by (simp add: ordered_pair_def consistent_def resetStats_def)
next
  case Idle
  then show ?thesis using assms(3) by (simp add: ordered_pair_def consistent_def same_tasks_def)
qed

lemma ordered_pair_exec:
  assumes "exec es v = Some v'" and "ClearQueue \<notin> set es" and "ordered_pair a b v"
    and "before a b"
  shows "ordered_pair a b v'"
proof (rule exec_invariant[OF assms(1), where P = "ordered_pair a b"])
  show "ordered_pair a b v" by (rule assms(3))
next
  fix e u u'
  assume "e \<in> set es" and "ordered_pair a b u" and "fire e u = Some u'"
  then show "ordered_pair a b u'"
    using ordered_pair_fire[of e u u' a b] assms(2,4) by auto
qed

lemma thrower_first:
  assumes "fire e w = Some w'" and "consistent w" and "a \<in> set (queue w)"
    and "b \<in> set (queue w)" and "before a b" and "b \<notin> set (queue w')" and "e \<noteq> ClearQueue"
  shows "task a \<noteq> Awaits"
  using assms(1)
proof (cases rule: fire_cases)
  case (AddTask t opts now)
  show ?thesis
    using order_step(2)[of "enqueue t opts now w" a b] consistent_enqueue[OF assms(2)]
      assms(3-6) AddTask(2) by simp
next
  case (Fulfil i x)
  show ?thesis
    using order_step(2)[of "fulfilled i x w" a b] consistent_fulfilled[OF assms(2) Fulfil(2)]
      assms(3-6) Fulfil(3) by simp
next
  case (Fail i err)
  show ?thesis
    using order_step(2)[of "failing i err w" a b] consistent_failing[OF assms(2) Fail(2)]
      assms(3-6) Fail(3) by simp
next
  case (Expire i)
  show ?thesis
    using order_step(2)[of "expired i w" a b] consistent_expired[OF assms(2) Expire(2)]
      assms(3-6) Expire(3) by simp
next
  case Clear
  then show ?thesis using assms(7) by simp
next
  case Reset
  then show ?thesis using assms(4,6) by (simp add: resetStats_def)
next
  case Idle
  then show ?thesis using assms(4,6) by (simp add: same_tasks_def)
qed

subsection \<open>Waiting for the idle state\<close>

lemma fire_idles_tasks:
  assumes "fire e w = Some w'"
    and "e \<noteq> OnIdle" and "\<forall>ms. e \<noteq> OnIdleWithTimeout ms"
    and "\<forall>k. e \<noteq> PollFire k" and "\<forall>k. e \<noteq> DeadlineFire k"
  shows "idles w' = idles w \<and> nextIdle w' = nextIdle w"
proof (cases e)
  case (AddTask t opts now)
  then show ?thesis using assms(1) by (auto simp: addTask_unfold)
next
  case (Settle i r)
  then show ?thesis using assms(1) by (cases r) (auto simp: settle_unfold split: if_splits)
next
  case (TimerFire i)
  then show ?thesis using assms(1) by (auto simp: timerFired_unfold split: if_splits)
next
  case ClearQueue
  then show ?thesis using assms(1) by auto
next
  case ResetStats
  then show ?thesis using assms(1) by (auto simp: resetStats_def)
qed (use assms in auto)

lemma checkIdle_resolves:
  assumes "idle_promise (idles w k) = Pending"
  shows "(idle_promise (idles (checkIdle k w) k) = Resolved Undefined) = (running w = 0 \<and> queue w = [])"
    and "idle_promise (idles (checkIdle k w) k) \<noteq> Pending \<longleftrightarrow> (running w = 0 \<and> queue w = [])"
  using assms by (auto simp: checkIdle_def resolveIdle_def Let_def)

lemma checkIdle_other:
  "j \<noteq> k \<Longrightarrow> idles (checkIdle k w) j = idles w j"
  by (simp add: checkIdle_def resolveIdle_def Let_def)

lemma idle_promise_fire:
  assumes "fire e w = Some w'" and "idle_promise (idles w k) = Pending"
    and "idle_promise (idles w' k) \<noteq> Pending"
  shows "idle_promise (idles w' k) = Resolved Undefined \<and> running w' = 0 \<and> queue w' = []"
proof (cases e)
  case OnIdle
  then show ?thesis using assms
    by (auto simp: onIdle_def checkIdle_def resolveIdle_def Let_def split: if_splits)
next
  case (OnIdleWithTimeout ms)
  then show ?thesis using assms
    by (auto simp: onIdleWithTimeout_def onIdle_def checkIdle_def resolveIdle_def Let_def
        split: if_splits)
next
  case (PollFire j)
  then show ?thesis using assms
    by (auto simp: pollFired_def checkIdle_def resolveIdle_def Let_def split: if_splits)
next
  case (DeadlineFire j)
  then show ?thesis using assms
    by (auto simp: deadlineFired_def Let_def split: if_splits)
qed (use assms fire_idles_tasks[OF assms(1)] in auto)

lemma race_fire:
  assumes "fire e w = Some w'" and "race (idles w k) = Pending"
    and "race (idles w' k) = Resolved v"
  shows "running w' = 0 \<and> queue w' = []"
proof (cases e)
  case OnIdle
  then show ?thesis using assms
    by (auto simp: onIdle_def checkIdle_def resolveIdle_def Let_def split: if_splits)
next
  case (OnIdleWithTimeout ms)
  then show ?thesis using assms
    by (auto simp: onIdleWithTimeout_def onIdle_def checkIdle_def resolveIdle_def Let_def
        split: if_splits)
next
  case (PollFire j)
  then show ?thesis using assms
    by (auto simp: pollFired_def checkIdle_def resolveIdle_def Let_def split: if_splits)
next
  case (DeadlineFire j)
  then show ?thesis using assms
    by (auto simp: deadlineFired_def Let_def split: if_splits)
qed (use assms fire_idles_tasks[OF assms(1)] in auto)

lemma racing_fire:
  assumes "fire e v = Some v'" and "\<not> isIdle v" and "e \<noteq> DeadlineFire k" and "racing k v"
  shows "racing k v'"
proof (cases e)
  case OnIdle
  then show ?thesis using assms
    by (auto simp: racing_def isIdle_def onIdle_def checkIdle_def Let_def)
next
  case (OnIdleWithTimeout ms)
  then show ?thesis using assms
    by (auto simp: racing_def isIdle_def onIdleWithTimeout_def onIdle_def checkIdle_def Let_def)
next
  case (PollFire j)
  then show ?thesis using assms
    by (auto simp: racing_def isIdle_def pollFired_def checkIdle_def Let_def split: if_splits)
next
  case (DeadlineFire j)
  then show ?thesis using assms
    by (auto simp: racing_def deadlineFired_def Let_def split: if_splits)
qed (use assms fire_idles_tasks[OF assms(1)] in \<open>auto simp: racing_def\<close>)

lemma racing_exec_busy:
  assumes "exec_busy es v = Some v'" and "DeadlineFire k \<notin> set es" and "racing k v"
  shows "racing k v'"
  using assms
proof (induction es arbitrary: v)
  case Nil
  then show ?case by simp
next
  case (Cons e es)
  from Cons.prems(1) obtain u where b: "\<not> isIdle v" and f: "fire e v = Some u"
    and r: "exec_busy es u = Some v'"
    by (auto split: if_splits option.splits)
  have ne: "e \<noteq> DeadlineFire k" using Cons.prems(2) by auto
  have "racing k u" by (rule racing_fire[OF f b ne Cons.prems(3)])
  then show ?case using Cons.IH[OF r] Cons.prems(2) by simp
qed

lemma onIdleWithTimeout_busy:
  assumes "\<not> isIdle w"
  shows "fst (onIdleWithTimeout ms w) = nextIdle w"
    and "racing (nextIdle w) (snd (onIdleWithTimeout ms w))"
  using assms
  by (auto simp: racing_def isIdle_def onIdleWithTimeout_def onIdle_def checkIdle_def Let_def)

lemma deadline_rejects:
  assumes "racing k v"
  shows "\<exists>v'. fire (DeadlineFire k) v = Some v'
           \<and> race (idles v' k) = Rejected (Error ''Queue idle timeout'')"
  using assms by (simp add: racing_def deadlineFired_def Let_def)

subsection \<open>Running a concrete execution\<close>

lemmas run_simps = limit_one_def no_options_def constructor_def or_else_def addTask_def
  settle_def timerFired_def reject_def resolve_def clearTimeout_def clear_def resetStats_def
  processQueue.simps Let_def

section \<open>The claims\<close>

subsection \<open>C1: more tasks execute than the limit allows\<close>

text \<open>
  C1. The claim: for every limit \<open>N\<close> and every sequence of submissions and completions,
  the number of tasks executing simultaneously never exceeds \<open>N\<close>. With a limit of 1,
  three tasks are submitted; the operation of the first one rejects, and the second is
  admitted. The timer of the first task is still armed (the \<^verbatim>\<open>catch\<close> block does not
  clear it); it fires, takes one from \<open>running\<close> once more, and \<open>processQueue\<close> admits
  the third task. Now two tasks execute, neither of them timed out, and \<open>running\<close> is 1.
\<close>

theorem stale_timer_admits_beyond_limit:
  "map_option in_flight
       (exec [AddTask Awaits no_options 0,
              AddTask Awaits no_options 1,
              AddTask Awaits no_options 2,
              Settle 0 (Inl (Error ''boom''))] (constructor limit_one)) = Some [1]
   \<and> map_option in_flight
       (exec [AddTask Awaits no_options 0,
              AddTask Awaits no_options 1,
              AddTask Awaits no_options 2,
              Settle 0 (Inl (Error ''boom'')),
              TimerFire 0] (constructor limit_one)) = Some [1, 2]
   \<and> map_option concurrency
       (exec [AddTask Awaits no_options 0,
              AddTask Awaits no_options 1,
              AddTask Awaits no_options 2,
              Settle 0 (Inl (Error ''boom'')),
              TimerFire 0] (constructor limit_one)) = Some 1
   \<and> map_option running
       (exec [AddTask Awaits no_options 0,
              AddTask Awaits no_options 1,
              AddTask Awaits no_options 2,
              Settle 0 (Inl (Error ''boom'')),
              TimerFire 0] (constructor limit_one)) = Some 1"
  by (simp add: run_simps in_flight_def upt_rec)

text \<open>
  The counter \<open>running\<close> itself stays within the limit, in every reachable state and for
  every limit that is not negative: the guard of \<open>processQueue\<close> sees to that. What fails
  is that the counter follows the tasks that execute.
\<close>

lemma running_counter_within_limit:
  assumes "exec es (constructor cfg) = Some w"
    and "0 \<le> concurrency (constructor cfg)"
  shows "concurrency w = concurrency (constructor cfg) \<and> running w \<le> concurrency w"
proof -
  have "running (constructor cfg) \<le> concurrency (constructor cfg)"
    using assms(2) by (simp add: constructor_def)
  then show ?thesis using gate_exec[OF assms(1)] by simp
qed

text \<open>
  The same happens without any failure. A task times out and a second one is admitted;
  the operation of the first one settles after all and takes one from \<open>running\<close> a second
  time; a third task is admitted while the second still executes.
\<close>

lemma late_settlement_admits_beyond_limit:
  "map_option in_flight
       (exec [AddTask Awaits no_options 0,
              TimerFire 0,
              AddTask Awaits no_options 1,
              Settle 0 (Inr (Opaque 7)),
              AddTask Awaits no_options 2] (constructor limit_one)) = Some [1, 2]
   \<and> map_option running
       (exec [AddTask Awaits no_options 0,
              TimerFire 0,
              AddTask Awaits no_options 1,
              Settle 0 (Inr (Opaque 7)),
              AddTask Awaits no_options 2] (constructor limit_one)) = Some 1"
  by (simp add: run_simps in_flight_def upt_rec)

subsection \<open>C2: the counter equation\<close>



subsection \<open>C3: the snapshot of getStats\<close>

text \<open>
  C3, as claimed: the field \<open>pending\<close> of the snapshot is the number of tasks waiting in
  the queue. It is not: with a limit of 1 and three tasks submitted, two tasks wait and
  the field \<open>pending\<close> of the snapshot is 1.
\<close>

theorem getStats_pending_counterexample:
  "map_option (pending \<circ> getStats) (exec [AddTask Awaits no_options 0,
           AddTask Awaits no_options 1,
           AddTask Awaits no_options 2] (constructor limit_one)) = Some 1
   \<and> map_option (length \<circ> queue) (exec [AddTask Awaits no_options 0,
           AddTask Awaits no_options 1,
           AddTask Awaits no_options 2] (constructor limit_one)) = Some 2"
  by (simp add: run_simps getStats_def)

text \<open>
  C3, amended: the snapshot has the fields \<open>total\<close>, \<open>completed\<close>, \<open>failed\<close>, \<open>pending\<close>,
  \<open>concurrency\<close>, \<open>size\<close> and \<open>isPaused\<close>; \<open>size\<close> is the number of tasks waiting in the
  queue, \<open>pending\<close> is the counter \<open>running\<close> (and so at most \<open>concurrency\<close>), the three
  counters are those of the scheduler, \<open>isPaused\<close> is false; and as long as \<^verbatim>\<open>resetStats\<close>
  has not been called, \<open>size\<close> is also the scheduler's own counter \<open>pending\<close>.
\<close>

theorem getStats_snapshot:
  assumes "exec es (constructor cfg) = Some w"
    and "0 \<le> concurrency (constructor cfg)"
  shows "size' (getStats w) = int (length (queue w))
     \<and> pending (getStats w) = running w
     \<and> pending (getStats w) \<le> concurrency' (getStats w)
     \<and> concurrency' (getStats w) = concurrency (constructor cfg)
     \<and> total' (getStats w) = total' (stats w)
     \<and> completed (getStats w) = completed (stats w)
     \<and> failed (getStats w) = failed (stats w)
     \<and> \<not> isPaused (getStats w)
     \<and> (ResetStats \<notin> set es \<longrightarrow> size' (getStats w) = pending (stats w))"
proof -
  have "running (constructor cfg) \<le> concurrency (constructor cfg)"
    using assms(2) by (simp add: constructor_def)
  then have g: "concurrency w = concurrency (constructor cfg) \<and> running w \<le> concurrency w"
    using gate_exec[OF assms(1)] by simp
  have "backlog_ok w" if "ResetStats \<notin> set es"
  proof (rule exec_invariant[OF assms(1), where P = backlog_ok])
    show "backlog_ok (constructor cfg)" by (simp add: backlog_ok_def constructor_def)
  next
    fix e v v'
    assume "e \<in> set es" and "backlog_ok v" and "fire e v = Some v'"
    then show "backlog_ok v'" using backlog_ok_fire[of e v v'] that by auto
  qed
  then show ?thesis using g by (auto simp: getStats_def backlog_ok_def)
qed

theorem getStats_snapshot_witness:
  "\<exists>w. exec [AddTask Awaits no_options 0,
           AddTask Awaits no_options 1,
           AddTask Awaits no_options 2] (constructor limit_one) = Some w
       \<and> size' (getStats w) = 2 \<and> pending (getStats w) = 1 \<and> concurrency' (getStats w) = 1
       \<and> total' (getStats w) = 3 \<and> pending (stats w) = 2"
proof -
  obtain w where w: "exec [AddTask Awaits no_options 0,
           AddTask Awaits no_options 1,
           AddTask Awaits no_options 2] (constructor limit_one) = Some w" by (simp add: run_simps)
  have n: "0 \<le> concurrency (constructor limit_one)" by (simp add: constructor_def or_else_def limit_one_def)
  have r: "running w = 1 \<and> length (queue w) = 2 \<and> total' (stats w) = 3"
    using w by (auto simp: run_simps)
  have "ResetStats \<notin> set [AddTask Awaits no_options 0,
           AddTask Awaits no_options 1,
           AddTask Awaits no_options 2]" by simp
  with getStats_snapshot[OF w n] w r show ?thesis
    by (simp add: constructor_def or_else_def limit_one_def)
qed

subsection \<open>C4: a timer outlives a task that failed\<close>

text \<open>
  C4. The claim: when the operation of an admitted task settles, with success or with
  failure, before its timer fires, the timer is disarmed and changes no counter and
  settles no promise afterwards. On the failure path it is not disarmed. With a limit of
  1, one task is submitted and its operation rejects. The timer is still armed
  afterwards; when it fires, \<open>failed\<close> goes from 1 to 2 and \<open>running\<close> from 0 to \<open>-1\<close>, for
  the one task.
\<close>

theorem failed_task_timer_still_fires:
  "map_option (timer_of 0) (exec [AddTask Awaits no_options 0,
           Settle 0 (Inl (Error ''boom''))] (constructor limit_one)) = Some Armed
   \<and> map_option counters (exec [AddTask Awaits no_options 0,
           Settle 0 (Inl (Error ''boom''))] (constructor limit_one)) = Some (1, 0, 1, 0, 0)
   \<and> map_option counters (exec [AddTask Awaits no_options 0,
           Settle 0 (Inl (Error ''boom'')), TimerFire 0] (constructor limit_one))
       = Some (1, 0, 2, - 1, 0)"
  by (simp add: run_simps counters_def timer_of_def)

text \<open>The success path does disarm the timer: it cannot fire afterwards.\<close>

lemma fulfilled_task_timer_disarmed:
  assumes "exec es (constructor cfg) = Some w" and "awaiting w i" and "timers w i = Armed"
  shows "\<exists>w'. fire (Settle i (Inr v)) w = Some w' \<and> timers w' i = Cleared
           \<and> fire (TimerFire i) w' = None"
proof -
  have c: "consistent w" using assms(1) by (rule consistent_exec)
  have "i \<notin> ident ` set (queue (fulfilled i v w))"
    using c assms(2) by (auto simp: consistent_def)
  then have "timers (processQueue (fulfilled i v w)) i = Cleared"
    using processQueue_elsewhere[of i "fulfilled i v w"] assms(3) by simp
  then show ?thesis using assms(2) by (simp add: settle_unfold)
qed

subsection \<open>C5: the timer fires first\<close>

text \<open>
  C5. A task has been admitted, its operation has not settled and its timer fires. Then
  the task's promise is rejected with the timeout error; with nobody waiting, \<open>failed\<close>
  is one more and \<open>running\<close> one less; with somebody waiting, the head of the queue is
  admitted into the freed slot in the same turn (its timer is armed and it has left the
  queue; if its operation is awaited, \<open>running\<close> is back where it was and \<open>pending\<close> is
  one less).
\<close>

theorem timeout_fails_task:
  assumes "exec es (constructor cfg) = Some w"
    and "0 \<le> concurrency (constructor cfg)"
    and "awaiting w i" and "timers w i = Armed"
  shows "\<exists>w'. fire (TimerFire i) w = Some w'
     \<and> promises w' i = Rejected (Error ''Task timeout'') \<and> timers w' i = Fired
     \<and> (queue w = [] \<longrightarrow>
          failed (stats w') = failed (stats w) + 1 \<and> running w' = running w - 1 \<and> queue w' = [])
     \<and> (\<forall>it rest. queue w = it # rest \<longrightarrow>
          timers w' (ident it) = Armed \<and> it \<notin> set (queue w')
          \<and> (task it = Awaits \<longrightarrow>
                awaiting w' (ident it) \<and> queue w' = rest
                \<and> failed (stats w') = failed (stats w) + 1
                \<and> running w' = running w - 1 + 1
                \<and> pending (stats w') = pending (stats w) - 1)
          \<and> (\<forall>e. task it = Throws e \<longrightarrow>
                promises w' (ident it) = Rejected e
                \<and> failed (stats w) + 2 \<le> failed (stats w')))"
proof -
  let ?m = "expired i w"
  let ?w' = "processQueue ?m"
  have c: "consistent w" using assms(1) by (rule consistent_exec)
  have cm: "consistent ?m" using c assms(4) by (rule consistent_expired)
  have g: "running w \<le> concurrency w"
    using gate_exec[OF assms(1)] assms(2) by (simp add: constructor_def)
  have open_gate: "running ?m < concurrency ?m" using g by simp
  have f: "fire (TimerFire i) w = Some ?w'" using assms(4) by (simp add: timerFired_unfold)
  have pend: "promises w i = Pending" using c assms(3,4) by (simp add: consistent_def)
  have notq: "i \<notin> ident ` set (queue ?m)" using c assms(3) by (auto simp: consistent_def)
  have p: "promises ?w' i = Rejected (Error ''Task timeout'')"
    using processQueue_settled[of ?m i] pend by simp
  have t: "timers ?w' i = Fired" using processQueue_elsewhere[OF notq] by simp
  have e: "queue w = [] \<longrightarrow>
          failed (stats ?w') = failed (stats w) + 1 \<and> running ?w' = running w - 1 \<and> queue ?w' = []"
    by (simp add: processQueue_stop)
  have h: "timers ?w' (ident it) = Armed \<and> it \<notin> set (queue ?w')
          \<and> (task it = Awaits \<longrightarrow>
                awaiting ?w' (ident it) \<and> queue ?w' = rest
                \<and> failed (stats ?w') = failed (stats w) + 1
                \<and> running ?w' = running w - 1 + 1
                \<and> pending (stats ?w') = pending (stats w) - 1)
          \<and> (\<forall>e. task it = Throws e \<longrightarrow>
                promises ?w' (ident it) = Rejected e
                \<and> failed (stats w) + 2 \<le> failed (stats ?w'))"
    if q: "queue w = it # rest" for it rest
  proof -
    have qm: "queue ?m = it # rest" using q by simp
    have d: "distinct (map ident (queue ?m))" using cm by (simp add: consistent_def)
    have pi: "promises ?m (ident it) = Pending" using cm qm by (simp add: consistent_def)
    note hd = processQueue_head[OF open_gate qm d]
    have "failed (stats w) + 2 \<le> failed (stats ?w')" if "task it = Throws e" for e
      using hd(4)[OF that pi] by simp
    then show ?thesis using hd(1,2) hd(3) hd(4) pi by auto
  qed
  show ?thesis using f p t e h by blast
qed

theorem timeout_fails_task_witness:
  "(\<exists>w. exec [AddTask Awaits no_options 0,
           AddTask Awaits no_options 1] (constructor limit_one) = Some w \<and> awaiting w 0 \<and> timers w 0 = Armed
       \<and> counters w = (2, 0, 0, 1, 1)
       \<and> (\<exists>w'. fire (TimerFire 0) w = Some w'
             \<and> promises w' 0 = Rejected (Error ''Task timeout'') \<and> timers w' 0 = Fired
             \<and> timers w' 1 = Armed \<and> awaiting w' 1 \<and> queue w' = []
             \<and> counters w' = (2, 0, 1, 1, 0)))
   \<and> (\<exists>w. exec [AddTask Awaits no_options 0] (constructor limit_one) = Some w
       \<and> awaiting w 0 \<and> timers w 0 = Armed \<and> queue w = []
       \<and> counters w = (1, 0, 0, 1, 0)
       \<and> (\<exists>w'. fire (TimerFire 0) w = Some w'
             \<and> promises w' 0 = Rejected (Error ''Task timeout'') \<and> timers w' 0 = Fired
             \<and> queue w' = [] \<and> counters w' = (1, 0, 1, 0, 0)))
   \<and> (\<exists>w. exec [AddTask Awaits no_options 0,
               AddTask (Throws (Error ''x'')) no_options 1] (constructor limit_one) = Some w
       \<and> awaiting w 0 \<and> timers w 0 = Armed \<and> map ident (queue w) = [1]
       \<and> failed (stats w) = 0
       \<and> (\<exists>w'. fire (TimerFire 0) w = Some w'
             \<and> promises w' 0 = Rejected (Error ''Task timeout'')
             \<and> timers w' 1 = Armed \<and> queue w' = []
             \<and> promises w' 1 = Rejected (Error ''x'') \<and> 2 \<le> failed (stats w')))"
proof -
  have n: "0 \<le> concurrency (constructor limit_one)"
    by (simp add: constructor_def or_else_def limit_one_def)
  have waiting: "\<exists>w. exec [AddTask Awaits no_options 0,
           AddTask Awaits no_options 1] (constructor limit_one) = Some w \<and> awaiting w 0 \<and> timers w 0 = Armed
       \<and> counters w = (2, 0, 0, 1, 1)
       \<and> (\<exists>w'. fire (TimerFire 0) w = Some w'
             \<and> promises w' 0 = Rejected (Error ''Task timeout'') \<and> timers w' 0 = Fired
             \<and> timers w' 1 = Armed \<and> awaiting w' 1 \<and> queue w' = []
             \<and> counters w' = (2, 0, 1, 1, 0))"
  proof -
    obtain w where w: "exec [AddTask Awaits no_options 0,
             AddTask Awaits no_options 1] (constructor limit_one) = Some w" by (simp add: run_simps)
    have n: "0 \<le> concurrency (constructor limit_one)" by (simp add: constructor_def or_else_def limit_one_def)
    have a: "awaiting w 0" and t: "timers w 0 = Armed"
      and k: "counters w = (2, 0, 0, 1, 1)"
      and q: "queue w = [\<lparr>task = Awaits, ident = 1, item_timeout = 30000, priority = 0,
                           startTime = 1\<rparr>]"
      using w by (auto simp: run_simps counters_def)
    from timeout_fails_task[OF w n a t] obtain w' where
      f: "fire (TimerFire 0) w = Some w'"
      and p: "promises w' 0 = Rejected (Error ''Task timeout'')" "timers w' 0 = Fired"
      and h: "\<forall>it rest. queue w = it # rest \<longrightarrow>
            timers w' (ident it) = Armed \<and> it \<notin> set (queue w')
            \<and> (task it = Awaits \<longrightarrow>
                  awaiting w' (ident it) \<and> queue w' = rest
                  \<and> failed (stats w') = failed (stats w) + 1
                  \<and> running w' = running w - 1 + 1
                  \<and> pending (stats w') = pending (stats w) - 1)
            \<and> (\<forall>e. task it = Throws e \<longrightarrow>
                  promises w' (ident it) = Rejected e
                  \<and> failed (stats w) + 2 \<le> failed (stats w'))"
      by blast
    have c: "total' (stats w') = 2 \<and> completed (stats w') = 0"
      using f w by (auto simp: run_simps)
    from h q have "timers w' 1 = Armed \<and> awaiting w' 1 \<and> queue w' = []
        \<and> failed (stats w') = failed (stats w) + 1 \<and> running w' = running w - 1 + 1
        \<and> pending (stats w') = pending (stats w) - 1" by simp
    then have "timers w' 1 = Armed \<and> awaiting w' 1 \<and> queue w' = []
        \<and> counters w' = (2, 0, 1, 1, 0)"
      using k c by (simp add: counters_def)
    then show ?thesis using w a t k f p by simp
  qed
  have nobody: "\<exists>w. exec [AddTask Awaits no_options 0] (constructor limit_one) = Some w
       \<and> awaiting w 0 \<and> timers w 0 = Armed \<and> queue w = []
       \<and> counters w = (1, 0, 0, 1, 0)
       \<and> (\<exists>w'. fire (TimerFire 0) w = Some w'
             \<and> promises w' 0 = Rejected (Error ''Task timeout'') \<and> timers w' 0 = Fired
             \<and> queue w' = [] \<and> counters w' = (1, 0, 1, 0, 0))"
  proof -
    obtain w where w: "exec [AddTask Awaits no_options 0] (constructor limit_one) = Some w"
      by (simp add: run_simps)
    have a: "awaiting w 0" and t: "timers w 0 = Armed" and q: "queue w = []"
      and k: "counters w = (1, 0, 0, 1, 0)"
      using w by (auto simp: run_simps counters_def)
    from timeout_fails_task[OF w n a t] obtain w' where
      f: "fire (TimerFire 0) w = Some w'"
      and p: "promises w' 0 = Rejected (Error ''Task timeout'')" "timers w' 0 = Fired"
      and h: "queue w = [] \<longrightarrow>
          failed (stats w') = failed (stats w) + 1 \<and> running w' = running w - 1 \<and> queue w' = []"
      by blast
    have c: "total' (stats w') = 1 \<and> completed (stats w') = 0 \<and> pending (stats w') = 0"
      using f w by (auto simp: run_simps)
    from h q k c have "queue w' = [] \<and> counters w' = (1, 0, 1, 0, 0)"
      by (simp add: counters_def)
    then show ?thesis using w a t q k f p by simp
  qed
  have thrower: "\<exists>w. exec [AddTask Awaits no_options 0,
               AddTask (Throws (Error ''x'')) no_options 1] (constructor limit_one) = Some w
       \<and> awaiting w 0 \<and> timers w 0 = Armed \<and> map ident (queue w) = [1]
       \<and> failed (stats w) = 0
       \<and> (\<exists>w'. fire (TimerFire 0) w = Some w'
             \<and> promises w' 0 = Rejected (Error ''Task timeout'')
             \<and> timers w' 1 = Armed \<and> queue w' = []
             \<and> promises w' 1 = Rejected (Error ''x'') \<and> 2 \<le> failed (stats w'))"
  proof -
    obtain w where w: "exec [AddTask Awaits no_options 0,
                 AddTask (Throws (Error ''x'')) no_options 1] (constructor limit_one) = Some w"
      by (simp add: run_simps)
    have a: "awaiting w 0" and t: "timers w 0 = Armed"
      and q: "queue w = [\<lparr>task = Throws (Error ''x''), ident = 1, item_timeout = 30000,
                           priority = 0, startTime = 1\<rparr>]"
      and k: "failed (stats w) = 0"
      using w by (auto simp: run_simps)
    from timeout_fails_task[OF w n a t] obtain w' where
      f: "fire (TimerFire 0) w = Some w'"
      and p: "promises w' 0 = Rejected (Error ''Task timeout'')"
      and h: "\<forall>it rest. queue w = it # rest \<longrightarrow>
          timers w' (ident it) = Armed \<and> it \<notin> set (queue w')
          \<and> (task it = Awaits \<longrightarrow>
                awaiting w' (ident it) \<and> queue w' = rest
                \<and> failed (stats w') = failed (stats w) + 1
                \<and> running w' = running w - 1 + 1
                \<and> pending (stats w') = pending (stats w) - 1)
          \<and> (\<forall>e. task it = Throws e \<longrightarrow>
                promises w' (ident it) = Rejected e
                \<and> failed (stats w) + 2 \<le> failed (stats w'))"
      by blast
    have e: "queue w' = []" using f w by (auto simp: run_simps)
    from h q k have "timers w' 1 = Armed \<and> promises w' 1 = Rejected (Error ''x'')
        \<and> 2 \<le> failed (stats w')" by simp
    then show ?thesis using w a t q k f p e by simp
  qed
  show ?thesis using waiting nobody thrower by (intro conjI)
qed

subsection \<open>C6: the order of admission\<close>

text \<open>
  C6. \<^verbatim>\<open>addTask\<close> numbers the promises it returns in the order of submission, and every
  queued task has a smaller number than the next submission will get. In every reachable
  state the queue is sorted: a task stands before every task of lower priority, and
  before every task of the same priority that was submitted later; \<open>processQueue\<close>
  admits from the front. So for two queued tasks \<open>a\<close> and \<open>b\<close>, \<open>a\<close> of higher priority or
  of the same priority and submitted earlier, and any continuation without \<^verbatim>\<open>clear\<close>:
  once \<open>b\<close> has left the queue, \<open>a\<close> has left it too, and both were admitted (their timers
  were set); and when both leave in one and the same turn, \<open>a\<close> is a task that threw at
  once, so that its slot was free again before \<open>b\<close> was taken.
\<close>

theorem admission_order:
  assumes "exec es (constructor cfg) = Some w"
  shows "fst (addTask t opts now w) = nextId w
     \<and> nextId (snd (addTask t opts now w)) = nextId w + 1
     \<and> (\<forall>it \<in> set (queue w). ident it < nextId w)
     \<and> sorted_wrt (\<lambda>a b. priority b < priority a
                          \<or> (priority a = priority b \<and> ident a < ident b)) (queue w)
     \<and> (\<forall>es' w' a b.
          exec es' w = Some w' \<and> ClearQueue \<notin> set es'
          \<and> a \<in> set (queue w) \<and> b \<in> set (queue w)
          \<and> (priority b < priority a \<or> (priority a = priority b \<and> ident a < ident b))
          \<and> b \<notin> set (queue w')
          \<longrightarrow> a \<notin> set (queue w') \<and> timers w' (ident a) \<noteq> Unset
              \<and> timers w' (ident b) \<noteq> Unset
              \<and> (length es' = 1 \<longrightarrow> task a \<noteq> Awaits))"
proof -
  have c: "consistent w" using assms by (rule consistent_exec)
  have i: "fst (addTask t opts now w) = nextId w
     \<and> nextId (snd (addTask t opts now w)) = nextId w + 1
     \<and> (\<forall>it \<in> set (queue w). ident it < nextId w)"
    using c by (simp add: addTask_unfold consistent_def)
  have s: "sorted_wrt (\<lambda>a b. priority b < priority a
                          \<or> (priority a = priority b \<and> ident a < ident b)) (queue w)"
    using c unfolding consistent_def before_def[abs_def] by simp
  have o: "a \<notin> set (queue w') \<and> timers w' (ident a) \<noteq> Unset
              \<and> timers w' (ident b) \<noteq> Unset
              \<and> (length es' = 1 \<longrightarrow> task a \<noteq> Awaits)"
    if run: "exec es' w = Some w'" and nc: "ClearQueue \<notin> set es'"
      and a: "a \<in> set (queue w)" and b: "b \<in> set (queue w)"
      and ab: "priority b < priority a \<or> (priority a = priority b \<and> ident a < ident b)"
      and gone: "b \<notin> set (queue w')"
    for es' w' a b
  proof -
    have bef: "before a b" using ab by (simp add: before_def)
    have "ordered_pair a b w" using c a b by (auto simp: ordered_pair_def consistent_def)
    then have op: "ordered_pair a b w'" using ordered_pair_exec[OF run nc _ bef] by simp
    have "task a \<noteq> Awaits" if len: "length es' = 1"
    proof -
      obtain e where e: "es' = [e]" using len by (auto simp: length_Suc_conv)
      then have f: "fire e w = Some w'" using run by (simp split: option.splits)
      have "e \<noteq> ClearQueue" using nc e by simp
      then show ?thesis using thrower_first[OF f c a b bef gone] by simp
    qed
    then show ?thesis using op gone by (auto simp: ordered_pair_def)
  qed
  show ?thesis using i s o by blast
qed

theorem admission_order_witness:
  "\<exists>w w'. exec [AddTask Awaits no_options 0,
           AddTask Awaits \<lparr>opt_timeout = None, opt_priority = Some 1\<rparr> 1,
           AddTask (Throws (Error ''x'')) \<lparr>opt_timeout = None, opt_priority = Some 5\<rparr> 2,
           AddTask Awaits \<lparr>opt_timeout = None, opt_priority = Some 1\<rparr> 3] (constructor limit_one) = Some w
       \<and> map ident (queue w) = [2, 1, 3] \<and> map priority (queue w) = [5, 1, 1]
       \<and> exec [Settle 0 (Inr (Opaque 7))] w = Some w'
       \<and> map ident (queue w') = [3]
       \<and> timers w' 2 \<noteq> Unset \<and> timers w' 1 \<noteq> Unset
       \<and> task (hd (queue w)) \<noteq> Awaits"
proof -
  let ?a = "\<lparr>task = Throws (Error ''x''), ident = 2, item_timeout = 30000, priority = 5,
        startTime = 2\<rparr>"
  let ?b = "\<lparr>task = Awaits, ident = 1, item_timeout = 30000, priority = 1,
        startTime = 1\<rparr>"
  let ?c = "\<lparr>task = Awaits, ident = 3, item_timeout = 30000, priority = 1,
        startTime = 3\<rparr>"
  obtain w where w: "exec [AddTask Awaits no_options 0,
           AddTask Awaits \<lparr>opt_timeout = None, opt_priority = Some 1\<rparr> 1,
           AddTask (Throws (Error ''x'')) \<lparr>opt_timeout = None, opt_priority = Some 5\<rparr> 2,
           AddTask Awaits \<lparr>opt_timeout = None, opt_priority = Some 1\<rparr> 3] (constructor limit_one) = Some w" by (simp add: run_simps)
  have q: "queue w = [?a, ?b, ?c]" using w by (auto simp: run_simps)
  obtain w' where w': "exec [Settle 0 (Inr (Opaque 7))] w = Some w'"
    using w by (auto simp: run_simps)
  have q': "queue w' = [?c]" using w w' by (auto simp: run_simps)
  have "\<forall>es' w' a b.
          exec es' w = Some w' \<and> ClearQueue \<notin> set es'
          \<and> a \<in> set (queue w) \<and> b \<in> set (queue w)
          \<and> (priority b < priority a \<or> (priority a = priority b \<and> ident a < ident b))
          \<and> b \<notin> set (queue w')
          \<longrightarrow> a \<notin> set (queue w') \<and> timers w' (ident a) \<noteq> Unset
              \<and> timers w' (ident b) \<noteq> Unset
              \<and> (length es' = 1 \<longrightarrow> task a \<noteq> Awaits)"
    using admission_order[OF w, of Awaits "no_options" 0]
    by (elim conjE)
  then have "exec [Settle 0 (Inr (Opaque 7))] w = Some w'
          \<and> ClearQueue \<notin> set [Settle 0 (Inr (Opaque 7))]
          \<and> ?a \<in> set (queue w) \<and> ?b \<in> set (queue w)
          \<and> (priority ?b < priority ?a \<or> (priority ?a = priority ?b \<and> ident ?a < ident ?b))
          \<and> ?b \<notin> set (queue w')
          \<longrightarrow> ?a \<notin> set (queue w') \<and> timers w' (ident ?a) \<noteq> Unset
              \<and> timers w' (ident ?b) \<noteq> Unset
              \<and> (length [Settle 0 (Inr (Opaque 7))] = 1 \<longrightarrow> task ?a \<noteq> Awaits)"
    by blast
  then have "timers w' 2 \<noteq> Unset \<and> timers w' 1 \<noteq> Unset \<and> task ?a \<noteq> Awaits"
    using w' q q' by simp
  then show ?thesis using w q w' q' by simp
qed

subsection \<open>C7: clear\<close>

text \<open>
  C7. In every reachable state, \<^verbatim>\<open>clear\<close> rejects the promise of every queued task with
  the error "Queue cleared", empties the queue and sets \<open>pending\<close> to 0. It leaves
  \<open>running\<close>, the timers, the suspended invocations and the promise of every task that
  was ever admitted as they were, and the other three counters too.
\<close>

theorem clear_rejects_queued:
  assumes "exec es (constructor cfg) = Some w"
  shows "(\<forall>it \<in> set (queue w). promises (clear w) (ident it) = Rejected (Error ''Queue cleared''))
     \<and> queue (clear w) = [] \<and> pending (stats (clear w)) = 0
     \<and> running (clear w) = running w
     \<and> timers (clear w) = timers w \<and> awaiting (clear w) = awaiting w
     \<and> (\<forall>j. timers w j \<noteq> Unset \<longrightarrow> promises (clear w) j = promises w j)
     \<and> total' (stats (clear w)) = total' (stats w)
     \<and> completed (stats (clear w)) = completed (stats w)
     \<and> failed (stats (clear w)) = failed (stats w)"
proof -
  have c: "consistent w" using assms by (rule consistent_exec)
  have "promises (clear w) (ident it) = Rejected (Error ''Queue cleared'')"
    if "it \<in> set (queue w)" for it
    using c that by (simp add: consistent_def)
  moreover have "promises (clear w) j = promises w j" if "timers w j \<noteq> Unset" for j
  proof -
    have "j \<notin> ident ` set (queue w)" using c that by (auto simp: consistent_def)
    then show ?thesis by simp
  qed
  ultimately show ?thesis by simp
qed

theorem clear_rejects_queued_witness:
  "\<exists>w. exec [AddTask Awaits no_options 0,
           AddTask Awaits no_options 1,
           AddTask Awaits no_options 2] (constructor limit_one) = Some w
       \<and> map ident (queue w) = [1, 2] \<and> timers w 0 = Armed
       \<and> promises (clear w) 1 = Rejected (Error ''Queue cleared'')
       \<and> promises (clear w) 2 = Rejected (Error ''Queue cleared'')
       \<and> promises (clear w) 0 = Pending
       \<and> queue (clear w) = [] \<and> pending (stats (clear w)) = 0 \<and> running (clear w) = 1"
proof -
  obtain w where w: "exec [AddTask Awaits no_options 0,
           AddTask Awaits no_options 1,
           AddTask Awaits no_options 2] (constructor limit_one) = Some w" by (simp add: run_simps)
  have q: "queue w = [\<lparr>task = Awaits, ident = 1, item_timeout = 30000, priority = 0,
                         startTime = 1\<rparr>,
                      \<lparr>task = Awaits, ident = 2, item_timeout = 30000, priority = 0,
                         startTime = 2\<rparr>]"
    and t: "timers w 0 = Armed" and p: "promises w 0 = Pending" and r: "running w = 1"
    using w by (auto simp: run_simps)
  from clear_rejects_queued[OF w] q t p r w show ?thesis by (simp del: clear_frame)
qed

subsection \<open>C8: isHealthy looks at the running count\<close>

text \<open>
  C8. The claim: \<open>isHealthy\<close> holds exactly when fewer than twice the limit are waiting.
  With a limit of 1 and three tasks submitted, two tasks wait, which is not fewer than
  2, and \<open>isHealthy\<close> is true: \<^verbatim>\<open>getHealth\<close> reads the field \<open>pending\<close> of the snapshot,
  which is the running count.
\<close>

theorem getHealth_ignores_backlog:
  "map_option (isHealthy \<circ> getHealth) (exec [AddTask Awaits no_options 0,
           AddTask Awaits no_options 1,
           AddTask Awaits no_options 2] (constructor limit_one)) = Some True
   \<and> map_option (length \<circ> queue) (exec [AddTask Awaits no_options 0,
           AddTask Awaits no_options 1,
           AddTask Awaits no_options 2] (constructor limit_one)) = Some 2
   \<and> map_option concurrency (exec [AddTask Awaits no_options 0,
           AddTask Awaits no_options 1,
           AddTask Awaits no_options 2] (constructor limit_one)) = Some 1"
  by (simp add: run_simps getHealth_def getStats_def)

text \<open>With a positive limit, no backlog at all makes the scheduler unhealthy, and the
  advice on a high backlog is never given.\<close>

lemma getHealth_never_unhealthy:
  assumes "exec es (constructor cfg) = Some w" and "0 < concurrency (constructor cfg)"
  shows "isHealthy (getHealth w)"
    and "''Queue backlog is high. Consider increasing concurrency or optimizing tasks.''
           \<notin> set (recommendations (getHealth w))"
proof -
  have "running (constructor cfg) \<le> concurrency (constructor cfg)"
    using assms(2) by (simp add: constructor_def)
  then have g: "concurrency w = concurrency (constructor cfg) \<and> running w \<le> concurrency w"
    using gate_exec[OF assms(1)] by simp
  show "isHealthy (getHealth w)"
    using g assms(2) by (simp add: getHealth_def getStats_def Let_def)
  show "''Queue backlog is high. Consider increasing concurrency or optimizing tasks.''
           \<notin> set (recommendations (getHealth w))"
    using g assms(2) by (simp add: getHealth_def getStats_def getRecommendations_def Let_def)
qed

subsection \<open>C9: onIdle and onIdleWithTimeout\<close>

text \<open>
  C9, as claimed: the promise of \<^verbatim>\<open>onIdle\<close> resolves only when \<open>running\<close> and \<open>pending\<close> are
  both 0. With a limit of 1, two tasks are submitted, \<^verbatim>\<open>resetStats\<close> is called while the
  second one waits, and both tasks complete. \<^verbatim>\<open>onIdle\<close> then resolves at once, and
  \<open>pending\<close> is \<open>-1\<close>.
\<close>

theorem onIdle_pending_counterexample:
  "map_option (idle_promise_of 0) (exec [AddTask Awaits no_options 0,
           AddTask Awaits no_options 1,
           ResetStats,
           Settle 0 (Inr (Opaque 7)),
           Settle 1 (Inr (Opaque 8)),
           OnIdle] (constructor limit_one)) = Some (Resolved Undefined)
   \<and> map_option counters (exec [AddTask Awaits no_options 0,
           AddTask Awaits no_options 1,
           ResetStats,
           Settle 0 (Inr (Opaque 7)),
           Settle 1 (Inr (Opaque 8)),
           OnIdle] (constructor limit_one)) = Some (0, 2, 0, 0, - 1)"
  by (simp add: run_simps counters_def idle_promise_of_def onIdle_def checkIdle_def
      resolveIdle_def)

text \<open>
  C9, amended: \<^verbatim>\<open>checkIdle\<close> looks at the queue, not at the counter. A check of a pending
  \<^verbatim>\<open>onIdle\<close> promise resolves it if and only if \<open>running\<close> is 0 and the queue is empty,
  and changes neither; otherwise it arms the next check. No event settles such a promise
  in any other way, and none resolves the promise of \<^verbatim>\<open>onIdleWithTimeout\<close> in a state that
  is not idle in this sense. As long as \<^verbatim>\<open>resetStats\<close> has not been called, an empty queue
  is the same as \<open>pending = 0\<close>. And when \<^verbatim>\<open>onIdleWithTimeout\<close> is called in a state that
  is not idle and the scheduler is not idle at the start of any later event until the
  timer of the call fires, then that timer rejects the promise with the error
  "Queue idle timeout".
\<close>

theorem wait_idle:
  "(idle_promise (idles w k) = Pending \<longrightarrow>
      (idle_promise (idles (checkIdle k w) k) = Resolved Undefined)
        = (running w = 0 \<and> queue w = [])
      \<and> (\<not> (running w = 0 \<and> queue w = []) \<longrightarrow>
            idle_promise (idles (checkIdle k w) k) = Pending
            \<and> poll_armed (idles (checkIdle k w) k))
      \<and> running (checkIdle k w) = running w \<and> queue (checkIdle k w) = queue w)
   \<and> (isIdle w \<longrightarrow> idle_promise (idles (snd (onIdle w)) (fst (onIdle w))) = Resolved Undefined)
   \<and> (\<forall>e w'. fire e w = Some w' \<and> idle_promise (idles w k) = Pending
          \<and> idle_promise (idles w' k) \<noteq> Pending
        \<longrightarrow> idle_promise (idles w' k) = Resolved Undefined \<and> running w' = 0 \<and> queue w' = [])
   \<and> (\<forall>e w' v. fire e w = Some w' \<and> race (idles w k) = Pending
          \<and> race (idles w' k) = Resolved v
        \<longrightarrow> running w' = 0 \<and> queue w' = [])
   \<and> (\<forall>es cfg. exec es (constructor cfg) = Some w \<and> ResetStats \<notin> set es
        \<longrightarrow> (running w = 0 \<and> queue w = []) = (running w = 0 \<and> pending (stats w) = 0))
   \<and> (\<forall>ms es w2. \<not> isIdle w
          \<and> exec_busy es (snd (onIdleWithTimeout ms w)) = Some w2
          \<and> DeadlineFire (fst (onIdleWithTimeout ms w)) \<notin> set es
        \<longrightarrow> (\<exists>w3. fire (DeadlineFire (fst (onIdleWithTimeout ms w))) w2 = Some w3
                \<and> race (idles w3 (fst (onIdleWithTimeout ms w)))
                    = Rejected (Error ''Queue idle timeout'')))"
proof -
  have a: "idle_promise (idles w k) = Pending \<longrightarrow>
      (idle_promise (idles (checkIdle k w) k) = Resolved Undefined)
        = (running w = 0 \<and> queue w = [])
      \<and> (\<not> (running w = 0 \<and> queue w = []) \<longrightarrow>
            idle_promise (idles (checkIdle k w) k) = Pending
            \<and> poll_armed (idles (checkIdle k w) k))
      \<and> running (checkIdle k w) = running w \<and> queue (checkIdle k w) = queue w"
    using idle_same_tasks(2)[of w k]
    by (auto simp: checkIdle_def resolveIdle_def Let_def same_tasks_def)
  have b: "isIdle w \<longrightarrow>
      idle_promise (idles (snd (onIdle w)) (fst (onIdle w))) = Resolved Undefined"
    by (simp add: isIdle_def onIdle_def checkIdle_def resolveIdle_def Let_def)
  have c: "\<forall>e w'. fire e w = Some w' \<and> idle_promise (idles w k) = Pending
          \<and> idle_promise (idles w' k) \<noteq> Pending
        \<longrightarrow> idle_promise (idles w' k) = Resolved Undefined \<and> running w' = 0 \<and> queue w' = []"
    using idle_promise_fire by blast
  have d: "\<forall>e w' v. fire e w = Some w' \<and> race (idles w k) = Pending
          \<and> race (idles w' k) = Resolved v
        \<longrightarrow> running w' = 0 \<and> queue w' = []"
    using race_fire by blast
  have e: "(running w = 0 \<and> queue w = []) = (running w = 0 \<and> pending (stats w) = 0)"
    if run: "exec es (constructor cfg) = Some w" and nr: "ResetStats \<notin> set es" for es cfg
  proof -
    have "backlog_ok w"
    proof (rule exec_invariant[OF run, where P = backlog_ok])
      show "backlog_ok (constructor cfg)" by (simp add: backlog_ok_def constructor_def)
    next
      fix e v v'
      assume "e \<in> set es" and "backlog_ok v" and "fire e v = Some v'"
      then show "backlog_ok v'" using backlog_ok_fire[of e v v'] nr by auto
    qed
    then show ?thesis by (auto simp: backlog_ok_def)
  qed
  have f: "\<exists>w3. fire (DeadlineFire (fst (onIdleWithTimeout ms w))) w2 = Some w3
                \<and> race (idles w3 (fst (onIdleWithTimeout ms w)))
                    = Rejected (Error ''Queue idle timeout'')"
    if busy: "\<not> isIdle w" and run: "exec_busy es (snd (onIdleWithTimeout ms w)) = Some w2"
      and nd: "DeadlineFire (fst (onIdleWithTimeout ms w)) \<notin> set es" for ms es w2
  proof -
    have k: "fst (onIdleWithTimeout ms w) = nextIdle w"
      using busy by (rule onIdleWithTimeout_busy(1))
    have "racing (nextIdle w) (snd (onIdleWithTimeout ms w))"
      using busy by (rule onIdleWithTimeout_busy(2))
    then have "racing (nextIdle w) w2" using racing_exec_busy[OF run] nd k by simp
    then show ?thesis using deadline_rejects k by simp
  qed
  show ?thesis using a b c d e f by blast
qed

theorem wait_idle_witness:
  "(\<exists>w w2. exec [AddTask Awaits no_options 0] (constructor limit_one) = Some w
       \<and> \<not> isIdle w \<and> fst (onIdleWithTimeout (Some 50) w) = 0
       \<and> idle_promise (idles (snd (onIdleWithTimeout (Some 50) w)) 0) = Pending
       \<and> exec_busy [PollFire 0, PollFire 0] (snd (onIdleWithTimeout (Some 50) w)) = Some w2
       \<and> (\<exists>w3. fire (DeadlineFire 0) w2 = Some w3
              \<and> race (idles w3 0) = Rejected (Error ''Queue idle timeout'')))
   \<and> ((\<exists>w. exec [AddTask Awaits no_options 0] (constructor limit_one) = Some w
       \<and> idle_promise (idles w 0) = Pending \<and> running w = 1
       \<and> idle_promise (idles (checkIdle 0 w) 0) = Pending
       \<and> poll_armed (idles (checkIdle 0 w) 0) \<and> running (checkIdle 0 w) = 1)
   \<and> (isIdle (constructor limit_one)
       \<and> idle_promise (idles (constructor limit_one) 0) = Pending
       \<and> idle_promise (idles (checkIdle 0 (constructor limit_one)) 0) = Resolved Undefined
       \<and> idle_promise (idles (snd (onIdle (constructor limit_one)))
                              (fst (onIdle (constructor limit_one)))) = Resolved Undefined)
   \<and> (\<exists>w w'. exec [AddTask Awaits no_options 0, OnIdle, Settle 0 (Inr (Opaque 7))]
                (constructor limit_one) = Some w
       \<and> ResetStats \<notin> set [AddTask Awaits no_options 0, OnIdle, Settle 0 (Inr (Opaque 7))]
       \<and> running w = 0 \<and> queue w = [] \<and> pending (stats w) = 0
       \<and> idle_promise (idles w 0) = Pending
       \<and> fire (PollFire 0) w = Some w'
       \<and> idle_promise (idles w' 0) = Resolved Undefined \<and> running w' = 0 \<and> queue w' = [])
   \<and> (\<exists>w w'. exec [AddTask Awaits no_options 0, OnIdleWithTimeout (Some 50),
                   Settle 0 (Inr (Opaque 7))] (constructor limit_one) = Some w
       \<and> race (idles w 0) = Pending
       \<and> fire (PollFire 0) w = Some w'
       \<and> race (idles w' 0) = Resolved Undefined \<and> running w' = 0 \<and> queue w' = []))"
proof -
  have first: "\<exists>w w2. exec [AddTask Awaits no_options 0] (constructor limit_one) = Some w
       \<and> \<not> isIdle w \<and> fst (onIdleWithTimeout (Some 50) w) = 0
       \<and> idle_promise (idles (snd (onIdleWithTimeout (Some 50) w)) 0) = Pending
       \<and> exec_busy [PollFire 0, PollFire 0] (snd (onIdleWithTimeout (Some 50) w)) = Some w2
       \<and> (\<exists>w3. fire (DeadlineFire 0) w2 = Some w3
              \<and> race (idles w3 0) = Rejected (Error ''Queue idle timeout''))"
  proof -
    obtain w where w: "exec [AddTask Awaits no_options 0] (constructor limit_one) = Some w" by (simp add: run_simps)
    have r: "running w = 1" "nextIdle w = 0" using w by (auto simp: run_simps)
    have busy: "\<not> isIdle w" using r by (simp add: isIdle_def)
    have k: "fst (onIdleWithTimeout (Some 50) w) = 0"
      using onIdleWithTimeout_busy(1)[OF busy] r by simp
    have p: "idle_promise (idles (snd (onIdleWithTimeout (Some 50) w)) 0) = Pending"
      using r by (simp add: onIdleWithTimeout_def onIdle_def checkIdle_def split_def Let_def)
    obtain w2 where w2: "exec_busy [PollFire 0, PollFire 0] (snd (onIdleWithTimeout (Some 50) w))
        = Some w2"
      using r by (simp add: isIdle_def onIdleWithTimeout_def onIdle_def checkIdle_def
          pollFired_def split_def Let_def)
    have nd: "DeadlineFire (fst (onIdleWithTimeout (Some 50) w)) \<notin> set [PollFire 0, PollFire 0]"
      by simp
    have "\<forall>ms es w2. \<not> isIdle w
            \<and> exec_busy es (snd (onIdleWithTimeout ms w)) = Some w2
            \<and> DeadlineFire (fst (onIdleWithTimeout ms w)) \<notin> set es
          \<longrightarrow> (\<exists>w3. fire (DeadlineFire (fst (onIdleWithTimeout ms w))) w2 = Some w3
                  \<and> race (idles w3 (fst (onIdleWithTimeout ms w)))
                      = Rejected (Error ''Queue idle timeout''))"
      using wait_idle[of w 0] by (elim conjE)
    then have "\<exists>w3. fire (DeadlineFire (fst (onIdleWithTimeout (Some 50) w))) w2 = Some w3
                  \<and> race (idles w3 (fst (onIdleWithTimeout (Some 50) w)))
                      = Rejected (Error ''Queue idle timeout'')"
      using busy w2 nd by blast
    then have d: "\<exists>w3. fire (DeadlineFire 0) w2 = Some w3
                  \<and> race (idles w3 0) = Rejected (Error ''Queue idle timeout'')"
      unfolding k .
    show ?thesis
      by (intro exI[of _ w] exI[of _ w2] conjI w busy k p w2 d)
  qed
  have second: "(\<exists>w. exec [AddTask Awaits no_options 0] (constructor limit_one) = Some w
       \<and> idle_promise (idles w 0) = Pending \<and> running w = 1
       \<and> idle_promise (idles (checkIdle 0 w) 0) = Pending
       \<and> poll_armed (idles (checkIdle 0 w) 0) \<and> running (checkIdle 0 w) = 1)
   \<and> (isIdle (constructor limit_one)
       \<and> idle_promise (idles (constructor limit_one) 0) = Pending
       \<and> idle_promise (idles (checkIdle 0 (constructor limit_one)) 0) = Resolved Undefined
       \<and> idle_promise (idles (snd (onIdle (constructor limit_one)))
                              (fst (onIdle (constructor limit_one)))) = Resolved Undefined)
   \<and> (\<exists>w w'. exec [AddTask Awaits no_options 0, OnIdle, Settle 0 (Inr (Opaque 7))]
                (constructor limit_one) = Some w
       \<and> ResetStats \<notin> set [AddTask Awaits no_options 0, OnIdle, Settle 0 (Inr (Opaque 7))]
       \<and> running w = 0 \<and> queue w = [] \<and> pending (stats w) = 0
       \<and> idle_promise (idles w 0) = Pending
       \<and> fire (PollFire 0) w = Some w'
       \<and> idle_promise (idles w' 0) = Resolved Undefined \<and> running w' = 0 \<and> queue w' = [])
   \<and> (\<exists>w w'. exec [AddTask Awaits no_options 0, OnIdleWithTimeout (Some 50),
                   Settle 0 (Inr (Opaque 7))] (constructor limit_one) = Some w
       \<and> race (idles w 0) = Pending
       \<and> fire (PollFire 0) w = Some w'
       \<and> race (idles w' 0) = Resolved Undefined \<and> running w' = 0 \<and> queue w' = [])"
  proof -
    let ?c = "constructor limit_one"
    have a: "\<exists>w. exec [AddTask Awaits no_options 0] ?c = Some w
         \<and> idle_promise (idles w 0) = Pending \<and> running w = 1
         \<and> idle_promise (idles (checkIdle 0 w) 0) = Pending
         \<and> poll_armed (idles (checkIdle 0 w) 0) \<and> running (checkIdle 0 w) = 1"
    proof -
      obtain w where w: "exec [AddTask Awaits no_options 0] ?c = Some w"
        by (simp add: run_simps)
      have p: "idle_promise (idles w 0) = Pending" and r: "running w = 1"
        using w by (auto simp: run_simps)
      have "idle_promise (idles w 0) = Pending \<longrightarrow>
        (idle_promise (idles (checkIdle 0 w) 0) = Resolved Undefined)
          = (running w = 0 \<and> queue w = [])
        \<and> (\<not> (running w = 0 \<and> queue w = []) \<longrightarrow>
              idle_promise (idles (checkIdle 0 w) 0) = Pending
              \<and> poll_armed (idles (checkIdle 0 w) 0))
        \<and> running (checkIdle 0 w) = running w \<and> queue (checkIdle 0 w) = queue w"
        using wait_idle[of w 0] by (elim conjE)
      then have "idle_promise (idles (checkIdle 0 w) 0) = Pending
         \<and> poll_armed (idles (checkIdle 0 w) 0) \<and> running (checkIdle 0 w) = 1"
        using p r by simp
      then show ?thesis using w p r by simp
    qed
    have b: "isIdle ?c \<and> idle_promise (idles ?c 0) = Pending
         \<and> idle_promise (idles (checkIdle 0 ?c) 0) = Resolved Undefined
         \<and> idle_promise (idles (snd (onIdle ?c)) (fst (onIdle ?c))) = Resolved Undefined"
    proof -
      have i: "isIdle ?c" and p: "idle_promise (idles ?c 0) = Pending"
        and r: "running ?c = 0 \<and> queue ?c = []"
        by (simp_all add: isIdle_def constructor_def)
      have "idle_promise (idles ?c 0) = Pending \<longrightarrow>
        (idle_promise (idles (checkIdle 0 ?c) 0) = Resolved Undefined)
          = (running ?c = 0 \<and> queue ?c = [])
        \<and> (\<not> (running ?c = 0 \<and> queue ?c = []) \<longrightarrow>
              idle_promise (idles (checkIdle 0 ?c) 0) = Pending
              \<and> poll_armed (idles (checkIdle 0 ?c) 0))
        \<and> running (checkIdle 0 ?c) = running ?c \<and> queue (checkIdle 0 ?c) = queue ?c"
        using wait_idle[of ?c 0] by (elim conjE)
      then have c1: "idle_promise (idles (checkIdle 0 ?c) 0) = Resolved Undefined"
        using p r by blast
      have "isIdle ?c \<longrightarrow>
        idle_promise (idles (snd (onIdle ?c)) (fst (onIdle ?c))) = Resolved Undefined"
        using wait_idle[of ?c 0] by (elim conjE)
      then show ?thesis using i p c1 by blast
    qed
    have c: "\<exists>w w'. exec [AddTask Awaits no_options 0, OnIdle, Settle 0 (Inr (Opaque 7))] ?c = Some w
         \<and> ResetStats \<notin> set [AddTask Awaits no_options 0, OnIdle, Settle 0 (Inr (Opaque 7))]
         \<and> running w = 0 \<and> queue w = [] \<and> pending (stats w) = 0
         \<and> idle_promise (idles w 0) = Pending
         \<and> fire (PollFire 0) w = Some w'
         \<and> idle_promise (idles w' 0) = Resolved Undefined \<and> running w' = 0 \<and> queue w' = []"
    proof -
      let ?es = "[AddTask Awaits no_options 0, OnIdle, Settle 0 (Inr (Opaque 7))]"
      obtain w where w: "exec ?es ?c = Some w"
        by (simp add: run_simps onIdle_def checkIdle_def)
      have nr: "ResetStats \<notin> set ?es" by simp
      have r: "running w = 0 \<and> queue w = []" and p: "idle_promise (idles w 0) = Pending"
        and a: "poll_armed (idles w 0)"
        using w by (auto simp: run_simps onIdle_def checkIdle_def)
      obtain w' where f: "fire (PollFire 0) w = Some w'" using a by simp
      have s: "idle_promise (idles w' 0) \<noteq> Pending"
        using f w by (auto simp: run_simps onIdle_def checkIdle_def pollFired_def resolveIdle_def)
      have "\<forall>es cfg. exec es (constructor cfg) = Some w \<and> ResetStats \<notin> set es
          \<longrightarrow> (running w = 0 \<and> queue w = []) = (running w = 0 \<and> pending (stats w) = 0)"
        using wait_idle[of w 0] by (elim conjE)
      then have e: "pending (stats w) = 0" using w nr r by blast
      have "\<forall>e w'. fire e w = Some w' \<and> idle_promise (idles w 0) = Pending
            \<and> idle_promise (idles w' 0) \<noteq> Pending
          \<longrightarrow> idle_promise (idles w' 0) = Resolved Undefined \<and> running w' = 0 \<and> queue w' = []"
        using wait_idle[of w 0] by (elim conjE)
      then have "idle_promise (idles w' 0) = Resolved Undefined \<and> running w' = 0 \<and> queue w' = []"
        using f p s by blast
      then show ?thesis using w nr r e p f by blast
    qed
    have d: "\<exists>w w'. exec [AddTask Awaits no_options 0, OnIdleWithTimeout (Some 50),
                     Settle 0 (Inr (Opaque 7))] ?c = Some w
         \<and> race (idles w 0) = Pending
         \<and> fire (PollFire 0) w = Some w'
         \<and> race (idles w' 0) = Resolved Undefined \<and> running w' = 0 \<and> queue w' = []"
    proof -
      let ?es = "[AddTask Awaits no_options 0, OnIdleWithTimeout (Some 50),
                  Settle 0 (Inr (Opaque 7))]"
      obtain w where w: "exec ?es ?c = Some w"
        by (simp add: run_simps onIdleWithTimeout_def onIdle_def checkIdle_def)
      have r: "running w = 0 \<and> queue w = []" and p: "race (idles w 0) = Pending"
        and ip: "idle_promise (idles w 0) = Pending"
        and dl: "deadline (idles w 0) = Armed"
        and a: "poll_armed (idles w 0)"
        using w by (auto simp: run_simps onIdleWithTimeout_def onIdle_def checkIdle_def)
      obtain w' where f: "fire (PollFire 0) w = Some w'" using a by simp
      have s: "race (idles w' 0) = Resolved Undefined"
        using f w by (auto simp: run_simps onIdleWithTimeout_def onIdle_def checkIdle_def
            pollFired_def resolveIdle_def)
      have "\<forall>e w' v. fire e w = Some w' \<and> race (idles w 0) = Pending
            \<and> race (idles w' 0) = Resolved v
          \<longrightarrow> running w' = 0 \<and> queue w' = []"
        using wait_idle[of w 0] by (elim conjE)
      then have "running w' = 0 \<and> queue w' = []" using f p s by blast
      then show ?thesis using w p f s by blast
    qed
    show ?thesis using a b c d by blast
  qed
  show ?thesis using first second by (rule conjI)
qed

subsection \<open>C10: resetStats\<close>

text \<open>
  C10, as claimed: after \<^verbatim>\<open>resetStats\<close> with tasks queued, \<open>pending\<close> differs from the length
  of the queue until those tasks are admitted. Their admission does not end it. With a
  limit of 1, two tasks are submitted, \<^verbatim>\<open>resetStats\<close> is called while the second one
  waits, and the first one completes. The second task has then been admitted (its timer
  is armed), the queue is empty, and \<open>pending\<close> is \<open>-1\<close>.
\<close>

theorem resetStats_admission_counterexample:
  "map_option (length \<circ> queue)
       (exec [AddTask Awaits no_options 0,
              AddTask Awaits no_options 1,
              ResetStats] (constructor limit_one)) = Some 1
   \<and> map_option counters
       (exec [AddTask Awaits no_options 0,
              AddTask Awaits no_options 1,
              ResetStats] (constructor limit_one)) = Some (0, 0, 0, 1, 0)
   \<and> map_option (timer_of 1)
       (exec [AddTask Awaits no_options 0,
              AddTask Awaits no_options 1,
              ResetStats,
              Settle 0 (Inr (Opaque 7))] (constructor limit_one)) = Some Armed
   \<and> map_option (length \<circ> queue)
       (exec [AddTask Awaits no_options 0,
              AddTask Awaits no_options 1,
              ResetStats,
              Settle 0 (Inr (Opaque 7))] (constructor limit_one)) = Some 0
   \<and> map_option counters
       (exec [AddTask Awaits no_options 0,
              AddTask Awaits no_options 1,
              ResetStats,
              Settle 0 (Inr (Opaque 7))] (constructor limit_one)) = Some (0, 1, 0, 1, - 1)"
  by (simp add: run_simps counters_def timer_of_def)

text \<open>
  C10, amended: \<^verbatim>\<open>resetStats\<close> sets the four counters to 0 and leaves everything else as
  it was: the queue, \<open>running\<close>, the promises, the timers, the suspended invocations.
  When tasks are queued, \<open>pending\<close> is then not the length of the queue any more, and it
  does not become so again when those tasks are admitted: through every continuation
  without \<^verbatim>\<open>clear\<close> and \<^verbatim>\<open>resetStats\<close> it stays below the length of the queue by the number
  of tasks that were queued at the reset. \<^verbatim>\<open>clear\<close> makes the two equal again.
\<close>

theorem resetStats_effect:
  "stats (resetStats w) = \<lparr>total' = 0, completed = 0, failed = 0, pending = 0\<rparr>
   \<and> queue (resetStats w) = queue w \<and> running (resetStats w) = running w
   \<and> promises (resetStats w) = promises w \<and> timers (resetStats w) = timers w
   \<and> awaiting (resetStats w) = awaiting w \<and> concurrency (resetStats w) = concurrency w
   \<and> (queue w \<noteq> [] \<longrightarrow> pending (stats (resetStats w)) \<noteq> int (length (queue (resetStats w))))
   \<and> (\<forall>es w'. exec es (resetStats w) = Some w'
          \<and> (\<forall>e \<in> set es. e \<noteq> ClearQueue \<and> e \<noteq> ResetStats)
        \<longrightarrow> pending (stats w') = int (length (queue w')) - int (length (queue w))
            \<and> (queue w \<noteq> [] \<longrightarrow> pending (stats w') \<noteq> int (length (queue w')))
            \<and> pending (stats (clear w')) = int (length (queue (clear w'))))"
proof -
  have "pending (stats w') = int (length (queue w')) - int (length (queue w))"
    if run: "exec es (resetStats w) = Some w'"
      and ev: "\<forall>e \<in> set es. e \<noteq> ClearQueue \<and> e \<noteq> ResetStats" for es w'
  proof -
    have "pending (stats w') - int (length (queue w')) = - int (length (queue w))"
    proof (rule exec_invariant[OF run,
          where P = "\<lambda>v. pending (stats v) - int (length (queue v)) = - int (length (queue w))"])
      show "pending (stats (resetStats w)) - int (length (queue (resetStats w)))
              = - int (length (queue w))"
        by (simp add: resetStats_def)
    next
      fix e v v'
      assume "e \<in> set es"
        and "pending (stats v) - int (length (queue v)) = - int (length (queue w))"
        and "fire e v = Some v'"
      then show "pending (stats v') - int (length (queue v')) = - int (length (queue w))"
        using backlog_offset_fire[of e v v'] ev by auto
    qed
    then show ?thesis by simp
  qed
  then show ?thesis by (auto simp: resetStats_def)
qed

theorem resetStats_effect_witness:
  "\<exists>w w'. exec [AddTask Awaits no_options 0,
           AddTask Awaits no_options 1] (constructor limit_one) = Some w \<and> length (queue w) = 1
       \<and> pending (stats (resetStats w)) = 0 \<and> length (queue (resetStats w)) = 1
       \<and> exec [Settle 0 (Inr Undefined)] (resetStats w) = Some w'
       \<and> pending (stats w') = - 1 \<and> length (queue w') = 0
       \<and> pending (stats (clear w')) = int (length (queue (clear w')))"
proof -
  obtain w where w: "exec [AddTask Awaits no_options 0,
           AddTask Awaits no_options 1] (constructor limit_one) = Some w" by (simp add: run_simps)
  have q: "length (queue w) = 1" using w by (auto simp: run_simps)
  obtain w' where w': "exec [Settle 0 (Inr Undefined)] (resetStats w) = Some w'"
    using w by (auto simp: run_simps)
  have l: "length (queue w') = 0" using w w' by (auto simp: run_simps)
  have ev: "\<forall>e \<in> set [Settle 0 (Inr Undefined)]. e \<noteq> ClearQueue \<and> e \<noteq> ResetStats" by simp
  from resetStats_effect[of w] w' ev
  have "pending (stats w') = int (length (queue w')) - int (length (queue w))
      \<and> pending (stats (clear w')) = int (length (queue (clear w')))" by blast
  moreover have "pending (stats (resetStats w)) = 0 \<and> length (queue (resetStats w)) = 1"
    using resetStats_effect[of w] q by simp
  ultimately show ?thesis using w q w' l by simp
qed

end
